theory Spec2Isabelle
  imports Main "HOL-Library.Sublist"
begin

section \<open>Strings\<close>

text \<open>
  A string is the list of the bytes of its UTF-8 encoding. Equality, \<open>startsWith\<close>,
  \<open>includes\<close> and \<open>split\<close> with ASCII arguments are the same on the bytes as on the
  characters; where the program reads a \<open>length\<close>, \<open>jsLength\<close> counts what JavaScript
  counts.

  \<open>toLowerCase\<close>: the program compares lower-cased strings with ASCII words only (\<open>===\<close>,
  \<open>startsWith\<close>, \<open>includes\<close>, membership in a table). The JavaScript method produces an
  ASCII character from an ASCII character, lower-casing \<open>A\<close> to \<open>Z\<close>, from U+212A (Kelvin
  sign, \<open>k\<close>) and from U+0130 (\<open>i\<close> followed by U+0307), and from nothing else. The
  function below does that and leaves every other character as it is, so every comparison
  the program makes has the result it has in JavaScript.
\<close>

definition lowerChar :: "char \<Rightarrow> char" where
  "lowerChar c =
     (case map_of (zip ''ABCDEFGHIJKLMNOPQRSTUVWXYZ'' ''abcdefghijklmnopqrstuvwxyz'') c of
        Some d \<Rightarrow> d
      | None \<Rightarrow> c)"

definition KELVIN_SIGN :: string where
  "KELVIN_SIGN = [CHR 0xE2, CHR 0x84, CHR 0xAA]"

definition CAPITAL_I_WITH_DOT :: string where
  "CAPITAL_I_WITH_DOT = [CHR 0xC4, CHR 0xB0]"

definition COMBINING_DOT :: string where
  "COMBINING_DOT = [CHR 0xCC, CHR 0x87]"

function toLowerCase :: "string \<Rightarrow> string" where
  "toLowerCase [] = []"
| "toLowerCase (c # cs) =
     (if prefix KELVIN_SIGN (c # cs) then CHR ''k'' # toLowerCase (drop 2 cs)
      else if prefix CAPITAL_I_WITH_DOT (c # cs)
        then CHR ''i'' # COMBINING_DOT @ toLowerCase (drop 1 cs)
      else lowerChar c # toLowerCase cs)"
  by pat_completeness auto
termination
  by (relation "measure length") auto

declare toLowerCase.simps(2) [simp del]

text \<open>\<open>s.startsWith(p)\<close> is \<^term>\<open>prefix p s\<close>; \<open>s.includes(sub)\<close> is the search below.\<close>

fun includesStr :: "string \<Rightarrow> string \<Rightarrow> bool" where
  "includesStr [] sub = (sub = [])"
| "includesStr (c # cs) sub = (prefix sub (c # cs) \<or> includesStr cs sub)"

text \<open>
  \<open>trim\<close> removes white space and line terminators from both ends: U+0009 to U+000D,
  U+0020, U+00A0, U+1680, U+2000 to U+200A, U+2028, U+2029, U+202F, U+205F, U+3000 and
  U+FEFF, here in UTF-8.
\<close>

definition WHITE_SPACE :: "string list" where
  "WHITE_SPACE =
     [[CHR 0x09], [CHR 0x0A], [CHR 0x0B], [CHR 0x0C], [CHR 0x0D], [CHR 0x20],
      [CHR 0xC2, CHR 0xA0], [CHR 0xE1, CHR 0x9A, CHR 0x80],
      [CHR 0xE2, CHR 0x80, CHR 0x80], [CHR 0xE2, CHR 0x80, CHR 0x81],
      [CHR 0xE2, CHR 0x80, CHR 0x82], [CHR 0xE2, CHR 0x80, CHR 0x83],
      [CHR 0xE2, CHR 0x80, CHR 0x84], [CHR 0xE2, CHR 0x80, CHR 0x85],
      [CHR 0xE2, CHR 0x80, CHR 0x86], [CHR 0xE2, CHR 0x80, CHR 0x87],
      [CHR 0xE2, CHR 0x80, CHR 0x88], [CHR 0xE2, CHR 0x80, CHR 0x89],
      [CHR 0xE2, CHR 0x80, CHR 0x8A], [CHR 0xE2, CHR 0x80, CHR 0xA8],
      [CHR 0xE2, CHR 0x80, CHR 0xA9], [CHR 0xE2, CHR 0x80, CHR 0xAF],
      [CHR 0xE2, CHR 0x81, CHR 0x9F], [CHR 0xE3, CHR 0x80, CHR 0x80],
      [CHR 0xEF, CHR 0xBB, CHR 0xBF]]"

text \<open>\<open>dropLeading ws s\<close> takes words of \<open>ws\<close> off the front of \<open>s\<close> as long as there is one.\<close>

function dropLeading :: "string list \<Rightarrow> string \<Rightarrow> string" where
  "dropLeading ws s =
     (case List.find (\<lambda>w. w \<noteq> [] \<and> prefix w s) ws of
        Some w \<Rightarrow> dropLeading ws (drop (length w) s)
      | None \<Rightarrow> s)"
  by pat_completeness auto
termination
proof (relation "measure (\<lambda>(ws, s). length s)")
  fix ws :: "string list" and s w :: string
  assume "List.find (\<lambda>w. w \<noteq> [] \<and> prefix w s) ws = Some w"
  then have "w \<noteq> []" "prefix w s"
    by (auto simp: find_Some_iff)
  then show "((ws, drop (length w) s), (ws, s)) \<in> measure (\<lambda>(ws, s). length s)"
    by (cases s) (auto simp: prefix_def)
qed simp

declare dropLeading.simps [simp del]

definition trim :: "string \<Rightarrow> string" where
  "trim s = rev (dropLeading (map rev WHITE_SPACE) (rev (dropLeading WHITE_SPACE s)))"

text \<open>
  The length JavaScript gives a string, in UTF-16 code units: one for each character, two
  for a character of four bytes.
\<close>

definition jsLength :: "string \<Rightarrow> nat" where
  "jsLength s =
     length (filter (\<lambda>c. \<not> (128 \<le> (of_char c :: nat) \<and> (of_char c :: nat) < 192)) s)
     + length (filter (\<lambda>c. 240 \<le> (of_char c :: nat)) s)"

section \<open>Data model\<close>

text \<open>
  The tree of the parser: elements with a tag name, attributes (the entries of the
  \<open>attribs\<close> object, looked up by key) and children; text, comment and directive
  (doctype) leaves. A document is the list of its top-level nodes.
\<close>

type_synonym attribs = "(string \<times> string) list"

datatype node =
    Element string attribs "node list"
  | Text string
  | Comment string
  | Directive string string

type_synonym document = "node list"

text \<open>
  The options object: every field is optional, \<open>None\<close> is \<open>undefined\<close>.
  \<open>truthy\<close> is the test \<open>if (options.x)\<close>, \<open>notFalse\<close> is \<open>options.x !== false\<close>.
\<close>

record options =
  keepDataAttributes :: "bool option"
  keepIds :: "bool option"
  keepClasses :: "bool option"
  keepAriaHidden :: "bool option"
  markdown :: "bool option"
  core :: "bool option"

definition truthy :: "bool option \<Rightarrow> bool" where
  "truthy b = (b = Some True)"

definition notFalse :: "bool option \<Rightarrow> bool" where
  "notFalse b = (b \<noteq> Some False)"

text \<open>\<open>el.attribs.k || ""\<close> and the truthiness of \<open>el.attribs.k\<close>.\<close>

definition attrOr :: "attribs \<Rightarrow> string \<Rightarrow> string" where
  "attrOr a k = (case map_of a k of Some v \<Rightarrow> v | None \<Rightarrow> [])"

definition attrTruthy :: "attribs \<Rightarrow> string \<Rightarrow> bool" where
  "attrTruthy a k = (case map_of a k of Some v \<Rightarrow> v \<noteq> [] | None \<Rightarrow> False)"

section \<open>Classification tables\<close>

definition REMOVE_TAGS :: "string list" where
  "REMOVE_TAGS = [''script'', ''style'', ''noscript'', ''svg'', ''link'', ''iframe'', ''template'']"

definition UNWRAP_TAGS :: "string list" where
  "UNWRAP_TAGS = [''span'', ''div'', ''font'', ''center'', ''b'', ''i'', ''u'', ''em'', ''strong'',
     ''small'', ''big'', ''mark'', ''sub'', ''sup'', ''abbr'', ''cite'', ''code'', ''kbd'', ''samp'',
     ''var'', ''del'', ''ins'', ''s'', ''strike'', ''wbr'', ''bdi'', ''bdo'']"

definition MARKDOWN_PRESERVE_TAGS :: "string list" where
  "MARKDOWN_PRESERVE_TAGS = [''strong'', ''b'', ''em'', ''i'', ''code'', ''del'', ''s'', ''strike'']"

definition KEEP_TAGS :: "string list" where
  "KEEP_TAGS = [''html'', ''head'', ''body'', ''title'', ''meta'', ''base'',
     ''header'', ''footer'', ''main'', ''nav'', ''article'', ''section'', ''aside'', ''hgroup'',
     ''search'', ''address'',
     ''h1'', ''h2'', ''h3'', ''h4'', ''h5'', ''h6'',
     ''p'', ''blockquote'', ''pre'', ''figure'', ''figcaption'', ''hr'', ''br'',
     ''ul'', ''ol'', ''li'', ''dl'', ''dt'', ''dd'', ''menu'',
     ''table'', ''thead'', ''tbody'', ''tfoot'', ''tr'', ''th'', ''td'', ''caption'', ''colgroup'',
     ''col'',
     ''form'', ''fieldset'', ''legend'', ''label'', ''input'', ''textarea'', ''select'', ''option'',
     ''optgroup'', ''button'', ''output'', ''datalist'',
     ''img'', ''picture'', ''source'', ''video'', ''audio'', ''track'',
     ''a'',
     ''details'', ''summary'', ''dialog'', ''time'']"

definition CONTENT_ATTRIBUTES :: "string list" where
  "CONTENT_ATTRIBUTES = [''href'', ''src'', ''srcset'', ''alt'', ''poster'',
     ''role'', ''aria-label'', ''aria-labelledby'', ''aria-describedby'', ''title'', ''lang'',
     ''dir'', ''translate'',
     ''type'', ''name'', ''value'', ''placeholder'', ''for'', ''action'', ''method'', ''required'',
     ''disabled'', ''checked'', ''selected'', ''readonly'', ''min'', ''max'', ''step'', ''pattern'',
     ''maxlength'', ''minlength'', ''multiple'', ''rows'', ''cols'',
     ''colspan'', ''rowspan'', ''scope'', ''headers'',
     ''content'', ''property'', ''charset'', ''http-equiv'',
     ''width'', ''height'', ''controls'', ''autoplay'', ''loop'', ''muted'',
     ''datetime'', ''open'', ''start'', ''reversed'']"

definition CHROME_TAGS :: "string list" where
  "CHROME_TAGS = [''header'', ''nav'', ''footer'', ''aside'', ''dialog'']"

definition CHROME_ROLES :: "string list" where
  "CHROME_ROLES = [''banner'', ''navigation'', ''complementary'', ''contentinfo'', ''search'']"

definition WELL_KNOWN_CONTENT_IDS :: "string list" where
  "WELL_KNOWN_CONTENT_IDS = [''main-content'', ''content'', ''main'', ''page-content'', ''site-content'']"

definition isEventAttribute :: "string \<Rightarrow> bool" where
  "isEventAttribute name = (prefix ''on'' name \<and> length name > 2)"

definition isDataAttribute :: "string \<Rightarrow> bool" where
  "isDataAttribute name = prefix ''data-'' name"

definition getUnwrapTags :: "options \<Rightarrow> string list" where
  "getUnwrapTags opts =
     (if \<not> notFalse (markdown opts) then UNWRAP_TAGS
      else filter (\<lambda>t. t \<notin> set MARKDOWN_PRESERVE_TAGS) UNWRAP_TAGS)"

section \<open>Attribute sanitizer\<close>

text \<open>
  \<open>stripAttributes\<close> walks the entries of \<open>el.attribs\<close> and copies the kept ones, under
  their own key, into a fresh object. \<open>keepAttribute\<close> is the body of its loop.
\<close>

definition keepAttribute :: "options \<Rightarrow> string \<Rightarrow> bool" where
  "keepAttribute opts key =
     (let lowerKey = toLowerCase key in
      if isEventAttribute lowerKey then False
      else if lowerKey = ''style'' then False
      else if lowerKey = ''class'' then truthy (keepClasses opts)
      else if lowerKey = ''id'' then notFalse (keepIds opts)
      else if isDataAttribute lowerKey then truthy (keepDataAttributes opts)
      else lowerKey \<in> set CONTENT_ATTRIBUTES)"

definition stripAttributes :: "attribs \<Rightarrow> options \<Rightarrow> attribs" where
  "stripAttributes a opts = filter (\<lambda>(key, value). keepAttribute opts key) a"

section \<open>Tree helpers\<close>

text \<open>\<open>textContent\<close> of the DOM utilities: the text of a node and of all its descendants.\<close>

fun textContent :: "node \<Rightarrow> string" where
  "textContent (Text d) = d"
| "textContent (Element tagName a cs) = concat (map textContent cs)"
| "textContent (Comment d) = []"
| "textContent (Directive n d) = []"

text \<open>
  \<open>findElement\<close>, \<open>findById\<close> and \<open>findElements\<close> search depth first, the node itself
  before its children. The \<open>In\<close> versions are the loops over a child list, and the search
  from the document node, which is not an element.
\<close>

fun findElement :: "node \<Rightarrow> string \<Rightarrow> node option"
  and findElementIn :: "node list \<Rightarrow> string \<Rightarrow> node option" where
  "findElement (Element tagName a cs) t =
     (if toLowerCase tagName = t then Some (Element tagName a cs) else findElementIn cs t)"
| "findElement (Text d) t = None"
| "findElement (Comment d) t = None"
| "findElement (Directive n d) t = None"
| "findElementIn [] t = None"
| "findElementIn (c # cs) t =
     (case findElement c t of Some found \<Rightarrow> Some found | None \<Rightarrow> findElementIn cs t)"

fun findElements :: "node \<Rightarrow> (string \<Rightarrow> attribs \<Rightarrow> node list \<Rightarrow> bool) \<Rightarrow> node list" where
  "findElements (Element tagName a cs) predicate =
     (if predicate tagName a cs then [Element tagName a cs] else [])
       @ concat (map (\<lambda>c. findElements c predicate) cs)"
| "findElements (Text d) predicate = []"
| "findElements (Comment d) predicate = []"
| "findElements (Directive n d) predicate = []"

definition findElementsIn :: "node list \<Rightarrow> (string \<Rightarrow> attribs \<Rightarrow> node list \<Rightarrow> bool) \<Rightarrow> node list" where
  "findElementsIn cs predicate = concat (map (\<lambda>c. findElements c predicate) cs)"

fun findById :: "node \<Rightarrow> string \<Rightarrow> node option"
  and findByIdIn :: "node list \<Rightarrow> string \<Rightarrow> node option" where
  "findById (Element tagName a cs) i =
     (if map_of a ''id'' = Some i then Some (Element tagName a cs) else findByIdIn cs i)"
| "findById (Text d) i = None"
| "findById (Comment d) i = None"
| "findById (Directive n d) i = None"
| "findByIdIn [] i = None"
| "findByIdIn (c # cs) i =
     (case findById c i of Some found \<Rightarrow> Some found | None \<Rightarrow> findByIdIn cs i)"

section \<open>Structural pruner\<close>

definition isUsefulMeta :: "attribs \<Rightarrow> bool" where
  "isUsefulMeta a =
     (let name = toLowerCase (attrOr a ''name'');
          property = toLowerCase (attrOr a ''property'');
          httpEquiv = toLowerCase (attrOr a ''http-equiv'')
      in if name \<in> set [''description'', ''author'', ''keywords'', ''robots'', ''viewport''] then True
         else if prefix ''og:'' property then True
         else if prefix ''twitter:'' name then True
         else if attrTruthy a ''charset'' then True
         else if httpEquiv = ''content-type'' then True
         else False)"

definition isUsefulLink :: "attribs \<Rightarrow> bool" where
  "isUsefulLink a =
     (let rel = toLowerCase (attrOr a ''rel'') in rel = ''canonical'' \<or> rel = ''alternate'')"

definition isHidden :: "attribs \<Rightarrow> options \<Rightarrow> bool" where
  "isHidden a opts =
     (if map_of a ''hidden'' \<noteq> None then True
      else if \<not> truthy (keepAriaHidden opts) \<and> map_of a ''aria-hidden'' = Some ''true'' then True
      else let style = attrOr a ''style'' in
        if includesStr style ''display:none'' \<or> includesStr style ''display: none'' then True
        else if includesStr style ''visibility:hidden'' \<or> includesStr style ''visibility: hidden''
          then True
        else False)"

fun hasMeaningfulContent :: "node \<Rightarrow> bool" where
  "hasMeaningfulContent (Text d) = (length (trim d) > 0)"
| "hasMeaningfulContent (Element tagName a cs) =
     (if toLowerCase tagName \<in>
           set [''img'', ''input'', ''br'', ''hr'', ''video'', ''audio'', ''source'', ''track'']
      then True
      else (\<exists>c \<in> set cs. hasMeaningfulContent c))"
| "hasMeaningfulContent (Comment d) = False"
| "hasMeaningfulContent (Directive n d) = False"

definition hasContentAttributes :: "attribs \<Rightarrow> options \<Rightarrow> bool" where
  "hasContentAttributes a opts =
     (\<exists>key \<in> set (map fst a).
        (let lowerKey = toLowerCase key in
           lowerKey \<in> set CONTENT_ATTRIBUTES
         \<or> (lowerKey = ''id'' \<and> notFalse (keepIds opts))
         \<or> (lowerKey = ''class'' \<and> truthy (keepClasses opts))
         \<or> (isDataAttribute lowerKey \<and> truthy (keepDataAttributes opts))))"

definition voidElements :: "string list" where
  "voidElements = [''br'', ''hr'', ''img'', ''input'', ''meta'', ''source'', ''track'', ''col'', ''base'']"

definition headElements :: "string list" where
  "headElements = [''head'', ''html'', ''body'', ''title'']"

text \<open>
  \<open>processNode\<close> edits the child list of the node's parent: it removes the node
  (\<open>removeElement\<close>), replaces it by its children (\<open>unwrapElement\<close>, which removes an
  element without children) or leaves it there, with new attributes and children. The
  model returns what stands in the parent's child list in place of the node. The loop
  over the children runs over a copy of the child list, so what an unwrapped child leaves
  behind is not visited again.
\<close>

fun processNode :: "options \<Rightarrow> string list \<Rightarrow> node \<Rightarrow> node list" where
  "processNode opts unwrapTags (Comment d) = []"
| "processNode opts unwrapTags (Text d) = [Text d]"
| "processNode opts unwrapTags (Directive n d) = [Directive n d]"
| "processNode opts unwrapTags (Element tagName a cs) =
     (let tag = toLowerCase tagName in
      if tag \<in> set REMOVE_TAGS then
        (if tag = ''link'' \<and> isUsefulLink a
         then [Element tagName (stripAttributes a opts) cs]
         else [])
      else if isHidden a opts then []
      else if tag = ''meta'' \<and> \<not> isUsefulMeta a then []
      else
        (let cs' = concat (map (processNode opts unwrapTags) cs);
             a' = stripAttributes a opts;
             node' = Element tagName a' cs'
         in if tag \<notin> set KEEP_TAGS \<and> tag \<in> set unwrapTags \<and> \<not> hasContentAttributes a' opts
            then cs'
            else if tag \<notin> set KEEP_TAGS \<and> \<not> hasMeaningfulContent node' then []
            else if tag \<notin> set voidElements \<and> tag \<notin> set headElements
                    \<and> \<not> hasMeaningfulContent node'
            then []
            else [node']))"

definition processNodes :: "options \<Rightarrow> string list \<Rightarrow> document \<Rightarrow> document" where
  "processNodes opts unwrapTags doc = concat (map (processNode opts unwrapTags) doc)"

section \<open>Document wrapper remover\<close>

text \<open>
  \<open>removeDocumentWrappers\<close> holds references to the \<open>html\<close>, \<open>head\<close> and \<open>body\<close>
  elements it found and edits the tree at them. A reference is modelled by the path of the
  node: the list of child indices that leads to it. \<open>findElementPathIn\<close> is \<open>findElementIn\<close>
  returning the path of what it finds.
\<close>

fun findElementPath :: "node \<Rightarrow> string \<Rightarrow> nat list option"
  and findElementPathIn :: "node list \<Rightarrow> nat \<Rightarrow> string \<Rightarrow> nat list option" where
  "findElementPath (Element tagName a cs) t =
     (if toLowerCase tagName = t then Some [] else findElementPathIn cs 0 t)"
| "findElementPath (Text d) t = None"
| "findElementPath (Comment d) t = None"
| "findElementPath (Directive n d) t = None"
| "findElementPathIn [] i t = None"
| "findElementPathIn (c # cs) i t =
     (case findElementPath c t of
        Some p \<Rightarrow> Some (i # p)
      | None \<Rightarrow> findElementPathIn cs (Suc i) t)"

text \<open>
  \<open>editAt f p cs\<close> puts \<open>f n\<close> in place of the node \<open>n\<close> at path \<open>p\<close> of the child list
  \<open>cs\<close>: \<open>removeElement\<close> is \<open>editAt removed\<close>, and \<open>unwrapElement\<close>, which splices the
  children in at the element's index (and removes an element without children), is
  \<open>editAt unwrapped\<close>.
\<close>

fun editAt :: "(node \<Rightarrow> node list) \<Rightarrow> nat list \<Rightarrow> node list \<Rightarrow> node list" where
  "editAt f [] cs = cs"
| "editAt f [i] cs = (if i < length cs then take i cs @ f (cs ! i) @ drop (Suc i) cs else cs)"
| "editAt f (i # j # p) cs =
     (if i < length cs then
        (case cs ! i of
           Element tagName a ks \<Rightarrow> cs[i := Element tagName a (editAt f (j # p) ks)]
         | _ \<Rightarrow> cs)
      else cs)"

definition removed :: "node \<Rightarrow> node list" where
  "removed n = []"

fun unwrapped :: "node \<Rightarrow> node list" where
  "unwrapped (Element tagName a cs) = cs"
| "unwrapped n = [n]"

text \<open>
  The path of the node that was at path \<open>q\<close> once the node at path \<open>p\<close> is removed, for a
  node outside the removed subtree: later siblings of the removed node move down by one.
\<close>

fun pathAfterRemoval :: "nat list \<Rightarrow> nat list \<Rightarrow> nat list" where
  "pathAfterRemoval [i] (j # q) = (if i < j then (j - 1) # q else j # q)"
| "pathAfterRemoval (i # p) (j # q) = (if i = j then j # pathAfterRemoval p q else j # q)"
| "pathAfterRemoval p q = q"

text \<open>
  What happens below the \<open>html\<close> element, on its child list: the first \<open>head\<close> is
  removed, then the first \<open>body\<close> (found before the removal) is unwrapped. A \<open>body\<close>
  inside the removed \<open>head\<close> is unwrapped in the detached subtree, which leaves the
  document as it is.
\<close>

definition removeHeadUnwrapBody :: "node list \<Rightarrow> node list" where
  "removeHeadUnwrapBody cs =
     (let bodyEl = findElementPathIn cs 0 ''body'';
          headEl = findElementPathIn cs 0 ''head'';
          cs1 = (case headEl of Some h \<Rightarrow> editAt removed h cs | None \<Rightarrow> cs)
      in case bodyEl of
           None \<Rightarrow> cs1
         | Some b \<Rightarrow>
             (case headEl of
                None \<Rightarrow> editAt unwrapped b cs1
              | Some h \<Rightarrow>
                  if prefix h b then cs1 else editAt unwrapped (pathAfterRemoval h b) cs1))"

fun unwrapHtml :: "node \<Rightarrow> node list" where
  "unwrapHtml (Element tagName a cs) = removeHeadUnwrapBody cs"
| "unwrapHtml n = [n]"

definition removeDocumentWrappers :: "document \<Rightarrow> document" where
  "removeDocumentWrappers doc =
     (case findElementPathIn doc 0 ''html'' of
        None \<Rightarrow> doc
      | Some htmlEl \<Rightarrow> editAt unwrapHtml htmlEl doc)"

section \<open>Chrome stripper\<close>

definition isChrome :: "string \<Rightarrow> attribs \<Rightarrow> bool" where
  "isChrome tagName a =
     (let tag = toLowerCase tagName; role = toLowerCase (attrOr a ''role'')
      in tag \<in> set CHROME_TAGS \<or> role \<in> set CHROME_ROLES)"

text \<open>\<open>removeChromeElements\<close> takes the child list of its node and returns the new one.\<close>

fun removeChromeElements :: "node list \<Rightarrow> node list" where
  "removeChromeElements [] = []"
| "removeChromeElements (Element tagName a cs # rest) =
     (if isChrome tagName a then removeChromeElements rest
      else Element tagName a (removeChromeElements cs) # removeChromeElements rest)"
| "removeChromeElements (Text d # rest) = Text d # removeChromeElements rest"
| "removeChromeElements (Comment d # rest) = Comment d # removeChromeElements rest"
| "removeChromeElements (Directive n d # rest) = Directive n d # removeChromeElements rest"

definition isSkipLink :: "string \<Rightarrow> attribs \<Rightarrow> node list \<Rightarrow> bool" where
  "isSkipLink tagName a cs =
     (if toLowerCase tagName \<noteq> ''a'' then False
      else let href = attrOr a ''href'' in
        if \<not> prefix ''#'' href then False
        else includesStr (toLowerCase (textContent (Element tagName a cs))) ''skip'')"

fun hrefOf :: "node \<Rightarrow> string" where
  "hrefOf (Element tagName a cs) = attrOr a ''href''"
| "hrefOf n = []"

text \<open>The loop over the skip links and the loop over the well-known ids.\<close>

fun skipTarget :: "document \<Rightarrow> node list \<Rightarrow> node option" where
  "skipTarget doc [] = None"
| "skipTarget doc (link # links) =
     (let targetId = drop 1 (hrefOf link) in
      if targetId \<noteq> [] then
        (case findByIdIn doc targetId of
           Some target \<Rightarrow> Some target
         | None \<Rightarrow> skipTarget doc links)
      else skipTarget doc links)"

fun firstById :: "document \<Rightarrow> string list \<Rightarrow> node option" where
  "firstById doc [] = None"
| "firstById doc (i # ids) =
     (case findByIdIn doc i of Some el \<Rightarrow> Some el | None \<Rightarrow> firstById doc ids)"

definition findCoreContent :: "document \<Rightarrow> node option" where
  "findCoreContent doc =
     (case findElementIn doc ''article'' of
        Some article \<Rightarrow> Some article
      | None \<Rightarrow>
          (case skipTarget doc (findElementsIn doc isSkipLink) of
             Some target \<Rightarrow> Some target
           | None \<Rightarrow> firstById doc WELL_KNOWN_CONTENT_IDS))"

definition hasRoleMain :: "string \<Rightarrow> attribs \<Rightarrow> node list \<Rightarrow> bool" where
  "hasRoleMain tagName a cs = (toLowerCase (attrOr a ''role'') = ''main'')"

definition mainEl :: "document \<Rightarrow> node option" where
  "mainEl doc =
     (case findElementIn doc ''main'' of
        Some m \<Rightarrow> Some m
      | None \<Rightarrow> (case findElementsIn doc hasRoleMain of m # ms \<Rightarrow> Some m | [] \<Rightarrow> None))"

definition stripChrome :: "document \<Rightarrow> document" where
  "stripChrome doc =
     (let doc1 = removeChromeElements doc in
      case mainEl doc1 of
        Some m \<Rightarrow> doc1
      | None \<Rightarrow> (case findCoreContent doc1 of Some coreContent \<Rightarrow> [coreContent] | None \<Rightarrow> doc1))"

text \<open>
  Besides the child lists, a node has the link fields \<open>parent\<close>, \<open>prev\<close> and \<open>next\<close>,
  each \<open>null\<close> or a reference to a node; a node is referred to by its path from the
  document, the list of child indexes. \<open>stripChrome\<close> assigns the three fields of the
  element it keeps; \<open>stripChromeLinks\<close> gives these fields after the call, from what they
  were before, and \<open>None\<close> when the call assigns nothing. \<open>linksOfChild\<close> is the loop that
  ends \<open>unwrapElement\<close> and \<open>replaceWithText\<close>: the sibling links of child \<open>i\<close> of \<open>n\<close>
  children of a node, here with the parent as well.
\<close>

datatype ref = Null | DocumentNode | NodeAt "nat list"

record linkFields =
  link_parent :: ref
  link_prev :: ref
  link_next :: ref

definition stripChromeLinks :: "document \<Rightarrow> linkFields \<Rightarrow> linkFields option" where
  "stripChromeLinks doc before =
     (let doc1 = removeChromeElements doc in
      case mainEl doc1 of
        Some m \<Rightarrow> None
      | None \<Rightarrow>
          (case findCoreContent doc1 of
             Some coreContent \<Rightarrow>
               Some (before\<lparr>link_parent := DocumentNode, link_prev := Null, link_next := Null\<rparr>)
           | None \<Rightarrow> None))"

definition linksOfChild :: "ref \<Rightarrow> nat list \<Rightarrow> nat \<Rightarrow> nat \<Rightarrow> linkFields" where
  "linksOfChild par path i n =
     \<lparr>link_parent = par,
      link_prev = (if i > 0 then NodeAt (path @ [i - 1]) else Null),
      link_next = (if i < n - 1 then NodeAt (path @ [i + 1]) else Null)\<rparr>"

section \<open>Whitespace normalizer and text node cleaner\<close>

text \<open>
  \<open>collapseRuns P\<close> replaces every maximal run of characters satisfying \<open>P\<close> by one space:
  the global replacement of \<open>/[\t\n\r]+/\<close>, and of \<open>/ {2,}/\<close> too, since a run of one
  space is replaced by itself.
\<close>

function collapseRuns :: "(char \<Rightarrow> bool) \<Rightarrow> string \<Rightarrow> string" where
  "collapseRuns P [] = []"
| "collapseRuns P (c # cs) =
     (if P c then CHR '' '' # collapseRuns P (dropWhile P cs) else c # collapseRuns P cs)"
  by pat_completeness auto
termination
  by (relation "measure (\<lambda>(P, s). length s)") (auto simp: length_dropWhile_le le_imp_less_Suc)

definition collapseText :: "string \<Rightarrow> string" where
  "collapseText d =
     collapseRuns (\<lambda>c. c = CHR '' '')
       (collapseRuns (\<lambda>c. c \<in> set [CHR 0x09, CHR 0x0A, CHR 0x0D]) d)"

fun collapseWhitespace :: "node \<Rightarrow> node" where
  "collapseWhitespace (Text d) = Text (collapseText d)"
| "collapseWhitespace (Element tagName a cs) = Element tagName a (map collapseWhitespace cs)"
| "collapseWhitespace (Comment d) = Comment d"
| "collapseWhitespace (Directive n d) = Directive n d"

text \<open>\<open>cleanTextNodes\<close> takes the child list of its node and returns the new one.\<close>

fun cleanTextNodes :: "node list \<Rightarrow> node list" where
  "cleanTextNodes [] = []"
| "cleanTextNodes (Text d # rest) =
     (if length (trim d) = 0 \<and> jsLength d > 1 then Text '' '' else Text d) # cleanTextNodes rest"
| "cleanTextNodes (Element tagName a cs # rest) =
     Element tagName a (cleanTextNodes cs) # cleanTextNodes rest"
| "cleanTextNodes (Comment d # rest) = Comment d # cleanTextNodes rest"
| "cleanTextNodes (Directive n d # rest) = Directive n d # cleanTextNodes rest"

section \<open>Markdown rewriter\<close>

fun getMdTextContent :: "node \<Rightarrow> string" where
  "getMdTextContent (Text d) = d"
| "getMdTextContent (Element tagName a cs) = concat (map getMdTextContent cs)"
| "getMdTextContent (Comment d) = []"
| "getMdTextContent (Directive n d) = []"

text \<open>String helpers of the rewriter: \<open>split("\n")\<close>, \<open>join\<close>, and a number as decimal text.\<close>

fun splitLines :: "string \<Rightarrow> string list" where
  "splitLines [] = [[]]"
| "splitLines (c # cs) =
     (if c = CHR 0x0A then [] # splitLines cs
      else (case splitLines cs of l # ls \<Rightarrow> (c # l) # ls | [] \<Rightarrow> [[c]]))"

fun joinWith :: "string \<Rightarrow> string list \<Rightarrow> string" where
  "joinWith sep [] = []"
| "joinWith sep [x] = x"
| "joinWith sep (x # y # ys) = x @ sep @ joinWith sep (y # ys)"

fun showNat :: "nat \<Rightarrow> string" where
  "showNat n =
     (if n < 10 then [''0123456789'' ! n]
      else showNat (n div 10) @ [''0123456789'' ! (n mod 10)])"

declare showNat.simps [simp del]

definition headingLevel :: "string \<Rightarrow> nat option" where
  "headingLevel tag =
     (if tag = ''h1'' then Some 1 else if tag = ''h2'' then Some 2
      else if tag = ''h3'' then Some 3 else if tag = ''h4'' then Some 4
      else if tag = ''h5'' then Some 5 else if tag = ''h6'' then Some 6 else None)"

fun isLi :: "node \<Rightarrow> bool" where
  "isLi (Element tagName a cs) = (toLowerCase tagName = ''li'')"
| "isLi n = False"

definition BACKTICK :: string where
  "BACKTICK = [CHR 0x60]"

definition TRIPLE_BACKTICK :: string where
  "TRIPLE_BACKTICK = BACKTICK @ BACKTICK @ BACKTICK"

definition NL :: string where
  "NL = [CHR 0x0A]"

text \<open>
  \<open>markdownRewrite\<close> rewrites the children first and then replaces the element by a text
  node (\<open>replaceWithText\<close>) or leaves it. The model returns what stands in the parent's child
  list in place of the node. The first argument says whether the parent of the node is a
  \<open>pre\<close> element, which is all the \<open>code\<close> rule reads of the parent.
\<close>

definition preText :: "node \<Rightarrow> node list \<Rightarrow> string" where
  "preText el cs =
     (case cs of
        [Element ct ca cc] \<Rightarrow>
          if toLowerCase ct = ''code'' then getMdTextContent (Element ct ca cc)
          else getMdTextContent el
      | _ \<Rightarrow> getMdTextContent el)"

fun markdownRewrite :: "bool \<Rightarrow> node \<Rightarrow> node" where
  "markdownRewrite parentIsPre (Text d) = Text d"
| "markdownRewrite parentIsPre (Comment d) = Comment d"
| "markdownRewrite parentIsPre (Directive n d) = Directive n d"
| "markdownRewrite parentIsPre (Element tagName a cs) =
     (let tag = toLowerCase tagName;
          cs' = map (markdownRewrite (tag = ''pre'')) cs;
          el = Element tagName a cs'
      in if tag = ''strong'' \<or> tag = ''b'' then Text (''**'' @ getMdTextContent el @ ''**'')
         else if tag = ''em'' \<or> tag = ''i'' then Text (''*'' @ getMdTextContent el @ ''*'')
         else if tag = ''del'' \<or> tag = ''s'' \<or> tag = ''strike''
           then Text (''~~'' @ getMdTextContent el @ ''~~'')
         else if tag = ''a''
           then Text (''['' @ getMdTextContent el @ '']('' @ attrOr a ''href'' @ '')'')
         else if tag = ''img''
           then Text (''!['' @ attrOr a ''alt'' @ '']('' @ attrOr a ''src'' @ '')'')
         else if tag = ''code''
           then (if parentIsPre then el else Text (BACKTICK @ getMdTextContent el @ BACKTICK))
         else if tag = ''pre''
           then Text (NL @ TRIPLE_BACKTICK @ NL @ preText el cs' @ NL @ TRIPLE_BACKTICK @ NL)
         else if headingLevel tag \<noteq> None
           then Text (NL @ replicate (the (headingLevel tag)) (CHR ''#'') @ '' ''
                        @ getMdTextContent el @ NL)
         else if tag = ''blockquote''
           then Text (joinWith NL (map (\<lambda>line. ''> '' @ line)
                        (splitLines (trim (getMdTextContent el)))))
         else if tag = ''ul''
           then Text (joinWith NL (map (\<lambda>item. ''- '' @ trim (getMdTextContent item))
                        (filter isLi cs')) @ NL)
         else if tag = ''ol''
           then Text (joinWith NL (map (\<lambda>(i, item). showNat (i + 1) @ ''. ''
                                          @ trim (getMdTextContent item))
                        (enumerate 0 (filter isLi cs'))) @ NL)
         else if tag = ''hr'' then Text (NL @ ''---'' @ NL)
         else if tag = ''br'' then Text NL
         else el)"

section \<open>Frontmatter extractor\<close>

record frontmatter =
  data_title :: "string option"
  data_description :: "string option"
  data_url :: "string option"
  data_image :: "string option"

definition isMeta :: "string \<Rightarrow> attribs \<Rightarrow> node list \<Rightarrow> bool" where
  "isMeta tagName a cs = (toLowerCase tagName = ''meta'')"

definition isLink :: "string \<Rightarrow> attribs \<Rightarrow> node list \<Rightarrow> bool" where
  "isLink tagName a cs = (toLowerCase tagName = ''link'')"

text \<open>
  The four loops of \<open>extractFrontmatter\<close> have one shape: the first element of the list
  whose attribute \<open>k\<close>, lowercased, is \<open>wanted\<close> and whose attribute \<open>v\<close> is a non-empty
  string gives the trimmed value of \<open>v\<close>, and the loop stops.
\<close>

fun firstAttrib :: "string \<Rightarrow> string \<Rightarrow> string \<Rightarrow> node list \<Rightarrow> string option" where
  "firstAttrib k wanted v [] = None"
| "firstAttrib k wanted v (Element tagName a cs # els) =
     (if toLowerCase (attrOr a k) = wanted \<and> attrTruthy a v then Some (trim (attrOr a v))
      else firstAttrib k wanted v els)"
| "firstAttrib k wanted v (Text d # els) = firstAttrib k wanted v els"
| "firstAttrib k wanted v (Comment d # els) = firstAttrib k wanted v els"
| "firstAttrib k wanted v (Directive n d # els) = firstAttrib k wanted v els"

definition extractFrontmatter :: "document \<Rightarrow> frontmatter" where
  "extractFrontmatter doc =
     (case findElementIn doc ''head'' of
        None \<Rightarrow> \<lparr>data_title = None, data_description = None, data_url = None, data_image = None\<rparr>
      | Some head \<Rightarrow>
          (let title =
                 (case findElement head ''title'' of
                    None \<Rightarrow> None
                  | Some titleEl \<Rightarrow>
                      (let text = trim (textContent titleEl) in
                       if text \<noteq> [] then Some text else None));
               metas = findElements head isMeta;
               links = findElements head isLink;
               canonical = firstAttrib ''rel'' ''canonical'' ''href'' links;
               url = (if canonical = None \<or> canonical = Some []
                      then (case firstAttrib ''property'' ''og:url'' ''content'' metas of
                              Some u \<Rightarrow> Some u
                            | None \<Rightarrow> canonical)
                      else canonical)
           in \<lparr>data_title = title,
               data_description = firstAttrib ''name'' ''description'' ''content'' metas,
               data_url = url,
               data_image = firstAttrib ''property'' ''og:image'' ''content'' metas\<rparr>))"

section \<open>Orchestrator\<close>

text \<open>
  The tree that \<open>wwwaxe\<close> hands to the serializer, from the tree the parser returned.
  Parser and serializer are libraries outside the program.
\<close>

definition wwwaxeTree :: "options \<Rightarrow> document \<Rightarrow> document" where
  "wwwaxeTree opts doc =
     (let unwrapTags = getUnwrapTags opts;
          doc1 = processNodes opts unwrapTags doc;
          doc2 = removeDocumentWrappers doc1;
          doc3 = (if truthy (core opts) then stripChrome doc2 else doc2);
          doc4 = map collapseWhitespace doc3;
          doc5 = cleanTextNodes doc4
      in if notFalse (markdown opts) then map (markdownRewrite False) doc5 else doc5)"

section \<open>The string functions on examples\<close>

text \<open>
  Lower case: ASCII letters, the Kelvin sign and the dotted capital I. Trimming: a
  no-break space and a line feed go like a space, white space inside stays, and a byte
  that is only the beginning of a white space character stays. Length: a character
  outside the basic plane counts as two.
\<close>

lemma toLowerCase_examples:
  "toLowerCase ''Content-Type'' = ''content-type''"
  "toLowerCase (''S'' @ KELVIN_SIGN @ ''IP'') = ''skip''"
  "toLowerCase (''D'' @ CAPITAL_I_WITH_DOT @ ''V'') = ''di'' @ COMBINING_DOT @ ''v''"
  "toLowerCase [CHR 0xC3, CHR 0x89] = [CHR 0xC3, CHR 0x89]"
  by code_simp+

lemma trim_examples:
  "trim ([CHR 0xC2, CHR 0xA0] @ '' Real  text '' @ [CHR 0xC2, CHR 0xA0, CHR 0x0A]) = ''Real  text''"
  "trim [CHR 0xC2, CHR 0xA0] = []"
  "trim ([CHR 0xE2, CHR 0x80, CHR 0x83] @ ''a'' @ [CHR 0xEF, CHR 0xBB, CHR 0xBF]) = ''a''"
  "trim (''a'' @ [CHR 0xE2, CHR 0x80]) = ''a'' @ [CHR 0xE2, CHR 0x80]"
  "trim [] = []"
  by code_simp+

lemma jsLength_examples:
  "jsLength ''abc'' = 3"
  "jsLength [CHR 0xC2, CHR 0xA0] = 1"
  "jsLength [CHR 0xE2, CHR 0x80, CHR 0x83] = 1"
  "jsLength [CHR 0xF0, CHR 0x9F, CHR 0x98, CHR 0x80] = 2"
  by code_simp+

lemma isSkipLink_Kelvin_sign:
  "isSkipLink ''a'' [(''href'', ''#x'')] [Text (''S'' @ KELVIN_SIGN @ ''IP to content'')]"
  by code_simp

section \<open>What a tree contains\<close>

text \<open>
  The elements of a tree, each as its tag name and attributes, and the comment texts of a
  tree. \<open>linksChildless\<close> is a property of every tree the parser returns: it closes a
  \<open>link\<close> element, like every void element, as soon as it is opened.
\<close>

fun elems :: "node \<Rightarrow> (string \<times> attribs) set"
  and elemsIn :: "node list \<Rightarrow> (string \<times> attribs) set" where
  "elems (Element tagName a cs) = insert (tagName, a) (elemsIn cs)"
| "elems (Text d) = {}"
| "elems (Comment d) = {}"
| "elems (Directive n d) = {}"
| "elemsIn [] = {}"
| "elemsIn (c # cs) = elems c \<union> elemsIn cs"

fun comments :: "node \<Rightarrow> string set"
  and commentsIn :: "node list \<Rightarrow> string set" where
  "comments (Element tagName a cs) = commentsIn cs"
| "comments (Text d) = {}"
| "comments (Comment d) = {d}"
| "comments (Directive n d) = {}"
| "commentsIn [] = {}"
| "commentsIn (c # cs) = comments c \<union> commentsIn cs"

fun linksChildless :: "node \<Rightarrow> bool" where
  "linksChildless (Element tagName a cs) =
     ((toLowerCase tagName = ''link'' \<longrightarrow> cs = []) \<and> (\<forall>c \<in> set cs. linksChildless c))"
| "linksChildless (Text d) = True"
| "linksChildless (Comment d) = True"
| "linksChildless (Directive n d) = True"

lemma elemsIn_Union: "elemsIn cs = (\<Union>c \<in> set cs. elems c)"
  by (induction cs) auto

lemma commentsIn_Union: "commentsIn cs = (\<Union>c \<in> set cs. comments c)"
  by (induction cs) auto

lemma elemsIn_append [simp]: "elemsIn (xs @ ys) = elemsIn xs \<union> elemsIn ys"
  by (induction xs) auto

lemma commentsIn_append [simp]: "commentsIn (xs @ ys) = commentsIn xs \<union> commentsIn ys"
  by (induction xs) auto

lemma elemsIn_concat: "elemsIn (concat xss) = (\<Union>xs \<in> set xss. elemsIn xs)"
  by (induction xss) auto


definition survivor :: "options \<Rightarrow> string \<Rightarrow> attribs \<Rightarrow> bool" where
  "survivor opts tagName a =
     (if toLowerCase tagName \<in> set REMOVE_TAGS then toLowerCase tagName = ''link'' \<and> isUsefulLink a
      else \<not> isHidden a opts \<and> (toLowerCase tagName = ''meta'' \<longrightarrow> isUsefulMeta a))"


lemma processNode_remove:
  "toLowerCase tagName \<in> set REMOVE_TAGS \<Longrightarrow>
   processNode opts uw (Element tagName a cs) =
     (if toLowerCase tagName = ''link'' \<and> isUsefulLink a
      then [Element tagName (stripAttributes a opts) cs] else [])"
  by (simp add: Let_def)

lemma processNode_hidden:
  "toLowerCase tagName \<notin> set REMOVE_TAGS \<Longrightarrow> isHidden a opts \<Longrightarrow>
   processNode opts uw (Element tagName a cs) = []"
  by (simp add: Let_def)

lemma processNode_meta:
  "toLowerCase tagName = ''meta'' \<Longrightarrow> \<not> isUsefulMeta a \<Longrightarrow>
   processNode opts uw (Element tagName a cs) = []"
  by (simp add: Let_def REMOVE_TAGS_def)

lemma processNode_kept:
  "toLowerCase tagName \<notin> set REMOVE_TAGS \<Longrightarrow> \<not> isHidden a opts \<Longrightarrow>
   \<not> (toLowerCase tagName = ''meta'' \<and> \<not> isUsefulMeta a) \<Longrightarrow>
   processNode opts uw (Element tagName a cs) = [] \<or>
   processNode opts uw (Element tagName a cs) = concat (map (processNode opts uw) cs) \<or>
   processNode opts uw (Element tagName a cs) =
     [Element tagName (stripAttributes a opts) (concat (map (processNode opts uw) cs))]"
  by (simp add: Let_def del: hasMeaningfulContent.simps)

lemma processNode_elems:
  "linksChildless n \<Longrightarrow> (t, a') \<in> elemsIn (processNode opts uw n) \<Longrightarrow>
     \<exists>a. (t, a) \<in> elems n \<and> a' = stripAttributes a opts \<and> survivor opts t a"
proof (induction opts uw n arbitrary: t a' rule: processNode.induct)
  case (4 opts uw tagName a cs)
  show ?case
  proof (cases "toLowerCase tagName \<in> set REMOVE_TAGS")
    case True
    with 4(2,3) show ?thesis
      by (auto simp: survivor_def processNode_remove simp del: processNode.simps split: if_splits)
  next
    case False
    show ?thesis
    proof (cases "isHidden a opts \<or> (toLowerCase tagName = ''meta'' \<and> \<not> isUsefulMeta a)")
      case True
      with False 4(3) show ?thesis
        by (auto simp: processNode_hidden processNode_meta simp del: processNode.simps)
    next
      case nh: False
      have kids: "\<exists>a0. (t, a0) \<in> elemsIn cs \<and> a' = stripAttributes a0 opts \<and> survivor opts t a0"
        if "(t, a') \<in> elemsIn (concat (map (processNode opts uw) cs))"
      proof -
        from that obtain c where c: "c \<in> set cs" "(t, a') \<in> elemsIn (processNode opts uw c)"
          by (auto simp: elemsIn_concat)
        from 4(2) c(1) have "linksChildless c" by simp
        from 4(1)[OF refl False _ _ c(1) this c(2)] nh c(1) show ?thesis
          unfolding elemsIn_Union by blast
      qed
      have self: "survivor opts tagName a"
        using False nh by (auto simp: survivor_def)
      from processNode_kept[of tagName a opts uw cs] False nh
      consider "processNode opts uw (Element tagName a cs) = []"
        | "processNode opts uw (Element tagName a cs) = concat (map (processNode opts uw) cs)"
        | "processNode opts uw (Element tagName a cs) =
            [Element tagName (stripAttributes a opts) (concat (map (processNode opts uw) cs))]"
        by blast
      then show ?thesis
      proof cases
        case 1
        with 4(3) show ?thesis by simp
      next
        case 2
        with 4(3) have "(t, a') \<in> elemsIn (concat (map (processNode opts uw) cs))"
          by (simp del: processNode.simps)
        from kids[OF this] show ?thesis by auto
      next
        case 3
        with 4(3) have "(t, a') = (tagName, stripAttributes a opts) \<or>
            (t, a') \<in> elemsIn (concat (map (processNode opts uw) cs))"
          by (simp del: processNode.simps)
        with kids self show ?thesis by auto
      qed
    qed
  qed
qed auto


lemma elemsIn_mono: "set xs \<subseteq> set ys \<Longrightarrow> elemsIn xs \<subseteq> elemsIn ys"
  by (auto simp: elemsIn_Union)

lemma commentsIn_mono: "set xs \<subseteq> set ys \<Longrightarrow> commentsIn xs \<subseteq> commentsIn ys"
  by (auto simp: commentsIn_Union)

lemma elemsIn_nth: "i < length cs \<Longrightarrow> elems (cs ! i) \<subseteq> elemsIn cs"
  by (auto simp: elemsIn_Union intro!: bexI[of _ "cs ! i"])


lemma elemsIn_update: "i < length cs \<Longrightarrow> elemsIn (cs[i := n]) \<subseteq> elems n \<union> elemsIn cs"
  by (auto simp: elemsIn_Union dest!: subsetD[OF set_update_subset_insert])


lemma elemsIn_take_drop: "elemsIn (take i cs) \<subseteq> elemsIn cs" "elemsIn (drop i cs) \<subseteq> elemsIn cs"
  by (auto simp: elemsIn_Union dest: in_set_takeD in_set_dropD)


lemma editAt_elems_aux:
  "\<forall>n. elemsIn (f n) \<subseteq> elems n \<Longrightarrow> elemsIn (editAt f p cs) \<subseteq> elemsIn cs"
proof (induction f p cs rule: editAt.induct)
  case (1 f cs)
  show ?case by simp
next
  case (2 f i cs)
  show ?case
  proof (cases "i < length cs")
    case True
    have "elemsIn (f (cs ! i)) \<subseteq> elemsIn cs"
      using 2[rule_format, of "cs ! i"] elemsIn_nth[OF True] by blast
    with True elemsIn_take_drop[of i cs] elemsIn_take_drop(2)[of "Suc i" cs] show ?thesis by auto
  qed simp
next
  case (3 f i j p cs)
  show ?case
  proof (cases "i < length cs")
    case True
    show ?thesis
    proof (cases "cs ! i")
      case (Element t a ks)
      have "elemsIn (editAt f (j # p) ks) \<subseteq> elemsIn ks"
        using 3(1)[OF True Element 3(2)] .
      moreover have "elems (cs ! i) \<subseteq> elemsIn cs" using elemsIn_nth[OF True] .
      ultimately have "elems (Element t a (editAt f (j # p) ks)) \<subseteq> elemsIn cs"
        using Element by (auto simp: elemsIn_Union)
      with elemsIn_update[OF True, of "Element t a (editAt f (j # p) ks)"] True Element
      show ?thesis by auto
    qed (use True in auto)
  qed simp
qed


lemma editAt_elems:
  assumes "\<And>n. elemsIn (f n) \<subseteq> elems n"
  shows "elemsIn (editAt f p cs) \<subseteq> elemsIn cs"
  using editAt_elems_aux assms by blast


lemma removed_elems: "elemsIn (removed n) \<subseteq> elems n"
  by (simp add: removed_def)

lemma unwrapped_elems: "elemsIn (unwrapped n) \<subseteq> elems n"
  by (cases n) (auto simp: elemsIn_Union)



lemma removeHeadUnwrapBody_elems: "elemsIn (removeHeadUnwrapBody cs) \<subseteq> elemsIn cs"
  unfolding removeHeadUnwrapBody_def Let_def
  using editAt_elems[of removed, OF removed_elems] editAt_elems[of unwrapped, OF unwrapped_elems]
  by (auto split: option.splits) blast+


lemma unwrapHtml_elems: "elemsIn (unwrapHtml n) \<subseteq> elems n"
  using removeHeadUnwrapBody_elems by (cases n) (auto simp: elemsIn_Union)


lemma removeDocumentWrappers_elems: "elemsIn (removeDocumentWrappers doc) \<subseteq> elemsIn doc"
  using editAt_elems[of unwrapHtml, OF unwrapHtml_elems]
  by (simp add: removeDocumentWrappers_def split: option.splits)


lemma removeChromeElements_elems: "elemsIn (removeChromeElements cs) \<subseteq> elemsIn cs"
  by (induction cs rule: removeChromeElements.induct) auto


lemma removeChromeElements_noChrome:
  "(t, a) \<in> elemsIn (removeChromeElements cs) \<Longrightarrow> \<not> isChrome t a"
  by (induction cs rule: removeChromeElements.induct) (auto split: if_splits)

lemma findElement_elems:
  "findElement n t = Some e \<Longrightarrow> elems e \<subseteq> elems n \<and> comments e \<subseteq> comments n"
  "findElementIn cs t = Some e \<Longrightarrow> elems e \<subseteq> elemsIn cs \<and> comments e \<subseteq> commentsIn cs"
  by (induction n t and cs t arbitrary: e and e rule: findElement_findElementIn.induct)
     (auto split: if_splits option.splits)

lemma findById_elems:
  "findById n i = Some e \<Longrightarrow> elems e \<subseteq> elems n \<and> comments e \<subseteq> comments n"
  "findByIdIn cs i = Some e \<Longrightarrow> elems e \<subseteq> elemsIn cs \<and> comments e \<subseteq> commentsIn cs"
  by (induction n i and cs i arbitrary: e and e rule: findById_findByIdIn.induct)
     (auto split: if_splits option.splits)

lemma skipTarget_elems:
  "skipTarget doc links = Some e \<Longrightarrow> elems e \<subseteq> elemsIn doc \<and> comments e \<subseteq> commentsIn doc"
  by (induction doc links rule: skipTarget.induct)
     (auto simp: Let_def dest: findById_elems(2) split: if_splits option.splits)

lemma firstById_elems:
  "firstById doc ids = Some e \<Longrightarrow> elems e \<subseteq> elemsIn doc \<and> comments e \<subseteq> commentsIn doc"
  by (induction doc ids rule: firstById.induct)
     (auto dest: findById_elems(2) split: option.splits)

lemma findCoreContent_elems:
  "findCoreContent doc = Some e \<Longrightarrow> elems e \<subseteq> elemsIn doc \<and> comments e \<subseteq> commentsIn doc"
  unfolding findCoreContent_def
  by (auto dest: findElement_elems(2) skipTarget_elems firstById_elems split: option.splits)

lemma stripChrome_sub:
  "elemsIn (stripChrome doc) \<subseteq> elemsIn (removeChromeElements doc)"
  "commentsIn (stripChrome doc) \<subseteq> commentsIn (removeChromeElements doc)"
  unfolding stripChrome_def Let_def
  by (auto dest: findCoreContent_elems split: option.splits)

lemma stripChrome_elems: "elemsIn (stripChrome doc) \<subseteq> elemsIn doc"
  using stripChrome_sub(1) removeChromeElements_elems by blast


lemma stripChrome_noChrome: "(t, a) \<in> elemsIn (stripChrome doc) \<Longrightarrow> \<not> isChrome t a"
  using stripChrome_sub(1) removeChromeElements_noChrome by blast

lemma collapseWhitespace_elems [simp]: "elems (collapseWhitespace n) = elems n"
  by (induction n) (auto simp: elemsIn_Union)

lemma collapseWhitespace_comments [simp]: "comments (collapseWhitespace n) = comments n"
  by (induction n) (auto simp: commentsIn_Union)

lemma cleanTextNodes_elems [simp]: "elemsIn (cleanTextNodes cs) = elemsIn cs"
  by (induction cs rule: cleanTextNodes.induct) auto

lemma cleanTextNodes_comments [simp]: "commentsIn (cleanTextNodes cs) = commentsIn cs"
  by (induction cs rule: cleanTextNodes.induct) auto

lemma markdownRewrite_cases:
  "(\<exists>d. markdownRewrite b (Element tagName a cs) = Text d) \<or>
   markdownRewrite b (Element tagName a cs) =
     Element tagName a (map (markdownRewrite (toLowerCase tagName = ''pre'')) cs)"
  by (simp add: Let_def)

lemma markdownRewrite_elems: "elems (markdownRewrite b n) \<subseteq> elems n"
proof (induction b n rule: markdownRewrite.induct)
  case (4 b tagName a cs)
  have kids: "elems (markdownRewrite (toLowerCase tagName = ''pre'') c) \<subseteq> elems c" if "c \<in> set cs" for c
    using 4[OF refl that] .
  have "elems (Element tagName a (map (markdownRewrite (toLowerCase tagName = ''pre'')) cs))
      \<subseteq> elems (Element tagName a cs)"
    using kids by (fastforce simp: elemsIn_Union)
  moreover have "elems (Text d) \<subseteq> elems (Element tagName a cs)" for d by simp
  ultimately show ?case
    using markdownRewrite_cases[of b tagName a cs] by metis
qed auto


lemma elemsIn_map_sub: "(\<And>n. elems (f n) \<subseteq> elems n) \<Longrightarrow> elemsIn (map f cs) \<subseteq> elemsIn cs"
  by (auto simp: elemsIn_Union)


lemma elemsIn_map_collapseWhitespace [simp]: "elemsIn (map collapseWhitespace cs) = elemsIn cs"
  by (simp add: elemsIn_Union)

lemma commentsIn_map_collapseWhitespace [simp]: "commentsIn (map collapseWhitespace cs) = commentsIn cs"
  by (simp add: commentsIn_Union)

text \<open>Nothing after the pruner adds an element or a comment.\<close>

lemma afterPruner_elems:
  "elemsIn (cleanTextNodes (map collapseWhitespace
      (if c then stripChrome (removeDocumentWrappers d) else removeDocumentWrappers d))) \<subseteq> elemsIn d"
  using stripChrome_elems[of "removeDocumentWrappers d"] removeDocumentWrappers_elems[of d]
  by (cases c) auto


lemma wwwaxeTree_elems:
  "elemsIn (wwwaxeTree opts doc) \<subseteq> elemsIn (processNodes opts (getUnwrapTags opts) doc)"
proof -
  let ?d1 = "processNodes opts (getUnwrapTags opts) doc"
  let ?d5 = "cleanTextNodes (map collapseWhitespace
      (if truthy (core opts) then stripChrome (removeDocumentWrappers ?d1) else removeDocumentWrappers ?d1))"
  have d5: "elemsIn ?d5 \<subseteq> elemsIn ?d1" by (rule afterPruner_elems)
  have "elemsIn (map (markdownRewrite False) ?d5) \<subseteq> elemsIn ?d5"
    by (rule elemsIn_map_sub) (rule markdownRewrite_elems)
  from this d5 have md: "elemsIn (map (markdownRewrite False) ?d5) \<subseteq> elemsIn ?d1" by (rule order_trans)
  have "wwwaxeTree opts doc = (if notFalse (markdown opts) then map (markdownRewrite False) ?d5 else ?d5)"
    by (simp only: wwwaxeTree_def Let_def)
  with d5 md show ?thesis by (cases "notFalse (markdown opts)") simp_all
qed


definition defaultOptions :: options where
  "defaultOptions = \<lparr>keepDataAttributes = None, keepIds = None, keepClasses = None,
     keepAriaHidden = None, markdown = None, core = None\<rparr>"

lemma processNodes_elems:
  assumes "\<forall>n \<in> set doc. linksChildless n" and "(t, a') \<in> elemsIn (processNodes opts uw doc)"
  shows "\<exists>a. (t, a) \<in> elemsIn doc \<and> a' = stripAttributes a opts \<and> survivor opts t a"
proof -
  from assms(2) obtain n where n: "n \<in> set doc" "(t, a') \<in> elemsIn (processNode opts uw n)"
    by (auto simp: processNodes_def elemsIn_concat)
  with assms(1) processNode_elems[of n t a' opts uw] show ?thesis
    unfolding elemsIn_Union by blast
qed


lemma wwwaxeTree_survivor:
  assumes "\<forall>n \<in> set doc. linksChildless n" and "(t, a') \<in> elemsIn (wwwaxeTree opts doc)"
  shows "\<exists>a. (t, a) \<in> elemsIn doc \<and> a' = stripAttributes a opts \<and> survivor opts t a"
  using processNodes_elems[OF assms(1)] wwwaxeTree_elems[of opts doc] assms(2) by blast

section \<open>Trees with nodes taken out\<close>

text \<open>
  \<open>without gone cs\<close> is the child list \<open>cs\<close> with every element that \<open>gone\<close> holds of taken
  out, at every depth, each with all that is below it. \<open>withoutComments\<close> takes out the
  comment nodes. Neither is a function of the program: they say what a result does not
  depend on.
\<close>

fun without :: "(string \<Rightarrow> attribs \<Rightarrow> bool) \<Rightarrow> node list \<Rightarrow> node list" where
  "without gone [] = []"
| "without gone (Element tagName a cs # rest) =
     (if gone tagName a then without gone rest
      else Element tagName a (without gone cs) # without gone rest)"
| "without gone (Text d # rest) = Text d # without gone rest"
| "without gone (Comment d # rest) = Comment d # without gone rest"
| "without gone (Directive n d # rest) = Directive n d # without gone rest"

fun withoutComments :: "node list \<Rightarrow> node list" where
  "withoutComments [] = []"
| "withoutComments (Element tagName a cs # rest) =
     Element tagName a (withoutComments cs) # withoutComments rest"
| "withoutComments (Text d # rest) = Text d # withoutComments rest"
| "withoutComments (Comment d # rest) = withoutComments rest"
| "withoutComments (Directive n d # rest) = Directive n d # withoutComments rest"

fun withoutCommentsBelow :: "node \<Rightarrow> node" where
  "withoutCommentsBelow (Element tagName a cs) = Element tagName a (withoutComments cs)"
| "withoutCommentsBelow n = n"


definition hiddenElement :: "options \<Rightarrow> string \<Rightarrow> attribs \<Rightarrow> bool" where
  "hiddenElement opts tagName a =
     (isHidden a opts \<and> \<not> (toLowerCase tagName = ''link'' \<and> isUsefulLink a))"

lemma processNode_children:
  assumes "\<not> (toLowerCase tagName = ''link'' \<and> isUsefulLink a)"
    and "concat (map (processNode opts uw) cs1) = concat (map (processNode opts uw) cs2)"
  shows "processNode opts uw (Element tagName a cs1) = processNode opts uw (Element tagName a cs2)"
proof (cases "toLowerCase tagName \<in> set REMOVE_TAGS")
  case True
  with assms(1) show ?thesis by (auto simp: processNode_remove simp del: processNode.simps)
next
  case False
  then show ?thesis
    by (simp only: processNode.simps Let_def if_False assms(2))
qed

lemma processNode_childless_link:
  assumes "linksChildless (Element tagName a cs)"
    and "concat (map (processNode opts uw) cs') = concat (map (processNode opts uw) cs)"
    and "cs = [] \<Longrightarrow> cs' = []"
  shows "processNode opts uw (Element tagName a cs') = processNode opts uw (Element tagName a cs)"
proof (cases "toLowerCase tagName = ''link''")
  case True
  with assms(1) have "cs = []" by simp
  with assms(3) show ?thesis by simp
next
  case False
  with assms(2) show ?thesis by (intro processNode_children) simp_all
qed

lemma processNodes_without:
  "(\<forall>tagName a cs. gone tagName a \<longrightarrow> processNode opts uw (Element tagName a cs) = []) \<Longrightarrow>
   \<forall>n \<in> set cs. linksChildless n \<Longrightarrow>
     concat (map (processNode opts uw) (without gone cs)) = concat (map (processNode opts uw) cs)"
proof (induction gone cs rule: without.induct)
  case (2 gone tagName a cs rest)
  from 2(5) have rest: "\<forall>n \<in> set rest. linksChildless n"
    and kids: "\<forall>n \<in> set cs. linksChildless n" and self: "linksChildless (Element tagName a cs)"
    by simp_all
  show ?case
  proof (cases "gone tagName a")
    case True
    with 2(1)[OF True 2(4) rest] 2(4) show ?thesis by (simp del: processNode.simps)
  next
    case False
    have "processNode opts uw (Element tagName a (without gone cs))
        = processNode opts uw (Element tagName a cs)"
      using self 2(2)[OF False 2(4) kids] by (rule processNode_childless_link) simp
    with False 2(3)[OF False 2(4) rest] show ?thesis by (simp del: processNode.simps)
  qed
qed simp_all


lemma wwwaxeTree_pruner:
  "processNodes opts (getUnwrapTags opts) doc' = processNodes opts (getUnwrapTags opts) doc \<Longrightarrow>
   wwwaxeTree opts doc' = wwwaxeTree opts doc"
  by (simp add: wwwaxeTree_def)


lemma hiddenElement_gone:
  assumes "hiddenElement opts tagName a"
  shows "processNode opts uw (Element tagName a cs) = []"
proof (cases "toLowerCase tagName \<in> set REMOVE_TAGS")
  case True
  with assms show ?thesis
    by (simp add: hiddenElement_def processNode_remove del: processNode.simps)
next
  case False
  with assms show ?thesis by (simp add: hiddenElement_def processNode_hidden del: processNode.simps)
qed

subsection \<open>The frontmatter does not read comments\<close>

lemma withoutComments_Cons:
  "withoutComments (c # cs) =
     (case c of Comment d \<Rightarrow> withoutComments cs | _ \<Rightarrow> withoutCommentsBelow c # withoutComments cs)"
  by (cases c) simp_all








text \<open>
  The frontmatter is read from the \<open>head\<close> before the pruner runs, so a \<open>title\<close>, \<open>meta\<close>
  or \<open>link\<close> below an element that the pruner removes still gives a field; the fields
  are strings, not nodes of the tree.
\<close>

lemma frontmatter_read_before_pruning:
  "data_description (extractFrontmatter
     [Element ''html'' []
        [Element ''head'' [] [Element ''noscript'' [] [Element ''meta'' [(''name'', ''description''), (''content'', ''D'')] []]],
         Element ''body'' [] [Element ''p'' [] [Text ''Hi'']]]]) = Some ''D''"
  "wwwaxeTree defaultOptions
     [Element ''html'' []
        [Element ''head'' [] [Element ''noscript'' [] [Element ''meta'' [(''name'', ''description''), (''content'', ''D'')] []]],
         Element ''body'' [] [Element ''p'' [] [Text ''Hi'']]]] = [Element ''p'' [] [Text ''Hi'']]"
  by code_simp+




text \<open>
  The event-handler pattern \<open>/^on.+/i\<close>: \<open>o\<close> and \<open>n\<close> in either case, then at least one
  character, the first of which is no line terminator. On byte strings only line feed and
  carriage return are excluded, so \<open>eventPattern\<close> holds of every name the pattern matches.
\<close>

definition eventPattern :: "string \<Rightarrow> bool" where
  "eventPattern name =
     (case name of
        c1 # c2 # c3 # rest \<Rightarrow>
          c1 \<in> set ''oO'' \<and> c2 \<in> set ''nN'' \<and> c3 \<notin> set [CHR 0x0A, CHR 0x0D]
      | _ \<Rightarrow> False)"

lemma stripAttributes_set:
  "(k, v) \<in> set (stripAttributes a opts) \<longleftrightarrow> (k, v) \<in> set a \<and> keepAttribute opts k"
  by (auto simp: stripAttributes_def)

lemma toLowerCase_Cons:
  "c \<noteq> CHR 0xE2 \<Longrightarrow> c \<noteq> CHR 0xC4 \<Longrightarrow> toLowerCase (c # cs) = lowerChar c # toLowerCase cs"
  by (simp add: toLowerCase.simps(2) KELVIN_SIGN_def CAPITAL_I_WITH_DOT_def)

lemma toLowerCase_nonempty: "toLowerCase (c # cs) \<noteq> []"
  by (simp add: toLowerCase.simps(2))

lemma lowerChar_on:
  "lowerChar CHR ''o'' = CHR ''o''" "lowerChar CHR ''O'' = CHR ''o''"
  "lowerChar CHR ''n'' = CHR ''n''" "lowerChar CHR ''N'' = CHR ''n''"
  by (simp_all add: lowerChar_def)

lemma eventPattern_isEventAttribute:
  assumes "eventPattern k"
  shows "isEventAttribute (toLowerCase k)"
proof -
  from assms obtain c1 c2 c3 rest where k: "k = c1 # c2 # c3 # rest"
    and c: "c1 = CHR ''o'' \<or> c1 = CHR ''O''" "c2 = CHR ''n'' \<or> c2 = CHR ''N''"
    by (auto simp: eventPattern_def split: list.splits)
  from c have "lowerChar c1 = CHR ''o''" "lowerChar c2 = CHR ''n''"
    using lowerChar_on by auto
  moreover from c have "c1 \<noteq> CHR 0xE2" "c1 \<noteq> CHR 0xC4" "c2 \<noteq> CHR 0xE2" "c2 \<noteq> CHR 0xC4"
    by auto
  ultimately have "toLowerCase k = CHR ''o'' # CHR ''n'' # toLowerCase (c3 # rest)"
    using k by (simp add: toLowerCase_Cons)
  moreover have "toLowerCase (c3 # rest) \<noteq> []"
    by (rule toLowerCase_nonempty)
  ultimately show ?thesis
    by (simp add: isEventAttribute_def)
qed

lemma keepAttribute_not_event: "keepAttribute opts k \<Longrightarrow> \<not> eventPattern k"
  using eventPattern_isEventAttribute[of k] by (auto simp: keepAttribute_def Let_def)

lemma keepAttribute_not_style: "keepAttribute opts k \<Longrightarrow> toLowerCase k \<noteq> ''style''"
  by (auto simp: keepAttribute_def Let_def isEventAttribute_def split: if_splits)

lemma keepAttribute_class:
  "toLowerCase k = ''class'' \<Longrightarrow> keepAttribute opts k \<longleftrightarrow> keepClasses opts = Some True"
  by (simp add: keepAttribute_def Let_def isEventAttribute_def truthy_def)

lemma keepAttribute_id:
  "toLowerCase k = ''id'' \<Longrightarrow> keepAttribute opts k \<longleftrightarrow> keepIds opts \<noteq> Some False"
  by (simp add: keepAttribute_def Let_def isEventAttribute_def notFalse_def)

lemma keepAttribute_data:
  assumes "prefix ''data-'' (toLowerCase k)"
  shows "keepAttribute opts k \<longleftrightarrow> keepDataAttributes opts = Some True"
proof -
  from assms obtain r where r: "toLowerCase k = ''data-'' @ r" by (auto simp: prefix_def)
  then show ?thesis
    by (simp add: keepAttribute_def Let_def isEventAttribute_def isDataAttribute_def truthy_def)
qed

lemma keepAttribute_rel: "toLowerCase k = ''rel'' \<Longrightarrow> \<not> keepAttribute opts k"
  by (simp add: keepAttribute_def Let_def isEventAttribute_def isDataAttribute_def
        CONTENT_ATTRIBUTES_def)

lemma wwwaxeTree_core_elems:
  assumes "truthy (core opts)"
  shows "elemsIn (wwwaxeTree opts doc)
     \<subseteq> elemsIn (stripChrome (removeDocumentWrappers (processNodes opts (getUnwrapTags opts) doc)))"
proof -
  let ?d3 = "stripChrome (removeDocumentWrappers (processNodes opts (getUnwrapTags opts) doc))"
  let ?d5 = "cleanTextNodes (map collapseWhitespace ?d3)"
  have d5: "elemsIn ?d5 = elemsIn ?d3" by simp
  have "elemsIn (map (markdownRewrite False) ?d5) \<subseteq> elemsIn ?d5"
    by (rule elemsIn_map_sub) (rule markdownRewrite_elems)
  with d5 have md: "elemsIn (map (markdownRewrite False) ?d5) \<subseteq> elemsIn ?d3" by simp
  have "wwwaxeTree opts doc = (if notFalse (markdown opts) then map (markdownRewrite False) ?d5 else ?d5)"
    using assms by (simp only: wwwaxeTree_def Let_def if_True)
  with d5 md show ?thesis by (cases "notFalse (markdown opts)") simp_all
qed

text \<open>
  C2. With \<open>core\<close> set, no element of the serialized tree has a chrome tag or a chrome
  role (compared in lower case), at any depth.
\<close>

theorem C2_core_leaves_no_chrome:
  assumes "core opts = Some True" and "(t, a) \<in> elemsIn (wwwaxeTree opts doc)"
  shows "toLowerCase t \<notin> set [''header'', ''nav'', ''footer'', ''aside'', ''dialog'']
       \<and> toLowerCase (attrOr a ''role'')
           \<notin> set [''banner'', ''navigation'', ''complementary'', ''contentinfo'', ''search'']"
proof -
  from assms(1) have "truthy (core opts)" by (simp add: truthy_def)
  from wwwaxeTree_core_elems[OF this] assms(2) have "\<not> isChrome t a"
    using stripChrome_noChrome by blast
  then show ?thesis
    by (simp add: isChrome_def Let_def CHROME_TAGS_def CHROME_ROLES_def)
qed

definition C2_example :: document where
  "C2_example =
     [Element ''header'' [] [Element ''nav'' [] [Element ''a'' [(''href'', ''/'')] [Text ''Home'']]],
      Element ''main'' []
        [Element ''p'' [] [Text ''Content''],
         Element ''section'' [(''role'', ''Navigation'')] [Text ''menu'']]]"

theorem C2_core_leaves_no_chrome_witness:
  "core (defaultOptions\<lparr>core := Some True\<rparr>) = Some True
   \<and> wwwaxeTree (defaultOptions\<lparr>core := Some True\<rparr>) C2_example
       = [Element ''main'' [] [Element ''p'' [] [Text ''Content'']]]
   \<and> toLowerCase ''main'' \<notin> set [''header'', ''nav'', ''footer'', ''aside'', ''dialog'']
   \<and> toLowerCase (attrOr [] ''role'')
       \<notin> set [''banner'', ''navigation'', ''complementary'', ''contentinfo'', ''search'']"
proof -
  have v: "wwwaxeTree (defaultOptions\<lparr>core := Some True\<rparr>) C2_example
       = [Element ''main'' [] [Element ''p'' [] [Text ''Content'']]]"
    by code_simp
  then have "(''main'', []) \<in> elemsIn (wwwaxeTree (defaultOptions\<lparr>core := Some True\<rparr>) C2_example)"
    by simp
  from C2_core_leaves_no_chrome[OF _ this] v show ?thesis by simp
qed

text \<open>
  C6. No attribute of an element of the serialized tree matches the event-handler
  pattern, and none is named \<open>style\<close>: every surviving element went through
  \<open>stripAttributes\<close>, which drops both whatever the options.
\<close>

theorem C6_no_event_or_style_attribute:
  assumes "\<forall>n \<in> set doc. linksChildless n"
    and "(t, a) \<in> elemsIn (wwwaxeTree opts doc)" and "(k, v) \<in> set a"
  shows "\<not> eventPattern k \<and> toLowerCase k \<noteq> ''style''"
proof -
  from wwwaxeTree_survivor[OF assms(1,2)] obtain a0 where "a = stripAttributes a0 opts" by blast
  with assms(3) have "keepAttribute opts k" by (simp add: stripAttributes_set)
  then show ?thesis using keepAttribute_not_event keepAttribute_not_style by blast
qed

definition C6_example :: document where
  "C6_example =
     [Element ''p'' [(''onclick'', ''go()''), (''STYLE'', ''color:red''), (''title'', ''T'')]
        [Text ''Hi'']]"

theorem C6_no_event_or_style_attribute_witness:
  "list_all linksChildless C6_example
   \<and> wwwaxeTree defaultOptions C6_example = [Element ''p'' [(''title'', ''T'')] [Text ''Hi'']]
   \<and> \<not> eventPattern ''title'' \<and> toLowerCase ''title'' \<noteq> ''style''"
proof -
  have "list_all linksChildless C6_example"
    by code_simp
  then have h: "\<forall>n \<in> set C6_example. linksChildless n"
    by (simp add: list_all_iff)
  have v: "wwwaxeTree defaultOptions C6_example = [Element ''p'' [(''title'', ''T'')] [Text ''Hi'']]"
    by code_simp
  then have "(''p'', [(''title'', ''T'')]) \<in> elemsIn (wwwaxeTree defaultOptions C6_example)"
    by simp
  from C6_no_event_or_style_attribute[OF h this, of "''title''" "''T''"] h v show ?thesis
    by (simp add: list_all_iff)
qed

text \<open>
  C5. Every element of the serialized tree is an element of the parsed tree with its
  attributes sanitized, and among them a \<open>class\<close> attribute is kept if and only if
  \<open>keepClasses\<close> is true, an \<open>id\<close> attribute if and only if \<open>keepIds\<close> is not false, and
  a \<open>data-\<close> attribute if and only if \<open>keepDataAttributes\<close> is true.
\<close>

theorem C5_class_id_data_attributes:
  assumes "\<forall>n \<in> set doc. linksChildless n" and "(t, a') \<in> elemsIn (wwwaxeTree opts doc)"
  shows "\<exists>a. (t, a) \<in> elemsIn doc \<and> a' = stripAttributes a opts
     \<and> (\<forall>k v. toLowerCase k = ''class'' \<longrightarrow>
            ((k, v) \<in> set a' \<longleftrightarrow> (k, v) \<in> set a \<and> keepClasses opts = Some True))
     \<and> (\<forall>k v. toLowerCase k = ''id'' \<longrightarrow>
            ((k, v) \<in> set a' \<longleftrightarrow> (k, v) \<in> set a \<and> keepIds opts \<noteq> Some False))
     \<and> (\<forall>k v. prefix ''data-'' (toLowerCase k) \<longrightarrow>
            ((k, v) \<in> set a' \<longleftrightarrow> (k, v) \<in> set a \<and> keepDataAttributes opts = Some True))"
proof -
  from wwwaxeTree_survivor[OF assms] obtain a
    where a: "(t, a) \<in> elemsIn doc" "a' = stripAttributes a opts" by blast
  have "(k, v) \<in> set a' \<longleftrightarrow> (k, v) \<in> set a \<and> keepClasses opts = Some True"
    if "toLowerCase k = ''class''" for k v
    using a(2) keepAttribute_class[OF that] by (simp add: stripAttributes_set)
  moreover have "(k, v) \<in> set a' \<longleftrightarrow> (k, v) \<in> set a \<and> keepIds opts \<noteq> Some False"
    if "toLowerCase k = ''id''" for k v
    using a(2) keepAttribute_id[OF that] by (simp add: stripAttributes_set)
  moreover have "(k, v) \<in> set a' \<longleftrightarrow> (k, v) \<in> set a \<and> keepDataAttributes opts = Some True"
    if "prefix ''data-'' (toLowerCase k)" for k v
    using a(2) keepAttribute_data[OF that] by (simp add: stripAttributes_set)
  ultimately show ?thesis using a by blast
qed

definition C5_example :: document where
  "C5_example =
     [Element ''p'' [(''class'', ''lead''), (''id'', ''intro''), (''data-x'', ''1'')] [Text ''Hi'']]"

theorem C5_class_id_data_attributes_witness:
  "list_all linksChildless C5_example
   \<and> wwwaxeTree defaultOptions C5_example = [Element ''p'' [(''id'', ''intro'')] [Text ''Hi'']]
   \<and> wwwaxeTree (defaultOptions\<lparr>keepClasses := Some True, keepIds := Some False,
                     keepDataAttributes := Some True\<rparr>) C5_example
       = [Element ''p'' [(''class'', ''lead''), (''data-x'', ''1'')] [Text ''Hi'']]
   \<and> (\<exists>a. (''p'', a) \<in> elemsIn C5_example \<and> [(''id'', ''intro'')] = stripAttributes a defaultOptions
        \<and> (''class'', ''lead'') \<in> set a \<and> (''class'', ''lead'') \<notin> set [(''id'', ''intro'')])"
proof -
  have "list_all linksChildless C5_example"
    by code_simp
  then have h: "\<forall>n \<in> set C5_example. linksChildless n"
    by (simp add: list_all_iff)
  have v: "wwwaxeTree defaultOptions C5_example = [Element ''p'' [(''id'', ''intro'')] [Text ''Hi'']]"
    by code_simp
  have v2: "wwwaxeTree (defaultOptions\<lparr>keepClasses := Some True, keepIds := Some False,
                     keepDataAttributes := Some True\<rparr>) C5_example
       = [Element ''p'' [(''class'', ''lead''), (''data-x'', ''1'')] [Text ''Hi'']]"
    by code_simp
  from v have "(''p'', [(''id'', ''intro'')]) \<in> elemsIn (wwwaxeTree defaultOptions C5_example)"
    by simp
  from C5_class_id_data_attributes[OF h this] obtain a where
    a: "(''p'', a) \<in> elemsIn C5_example" "[(''id'', ''intro'')] = stripAttributes a defaultOptions"
    by blast
  then have "(''class'', ''lead'') \<in> set a"
    by (simp add: C5_example_def)
  moreover have "(''class'', ''lead'') \<notin> set [(''id'', ''intro'')]"
    by simp
  ultimately have "\<exists>a. (''p'', a) \<in> elemsIn C5_example
        \<and> [(''id'', ''intro'')] = stripAttributes a defaultOptions
        \<and> (''class'', ''lead'') \<in> set a \<and> (''class'', ''lead'') \<notin> set [(''id'', ''intro'')]"
    using a by blast
  moreover have "list_all linksChildless C5_example"
    using h by (simp add: list_all_iff)
  ultimately show ?thesis
    using v v2 by blast
qed

text \<open>
  C10. A \<open>link\<close> element of the serialized tree is a \<open>link\<close> of the parsed tree whose
  \<open>rel\<close> was \<open>canonical\<close> or \<open>alternate\<close>, with its attributes sanitized; it has no
  \<open>rel\<close> attribute left, so it no longer passes \<open>isUsefulLink\<close>.
\<close>

theorem C10_link_loses_rel:
  assumes "\<forall>n \<in> set doc. linksChildless n"
    and "(t, a') \<in> elemsIn (wwwaxeTree opts doc)" and "toLowerCase t = ''link''"
  shows "(\<exists>a. (t, a) \<in> elemsIn doc \<and> isUsefulLink a \<and> a' = stripAttributes a opts)
       \<and> (\<forall>k v. (k, v) \<in> set a' \<longrightarrow> toLowerCase k \<noteq> ''rel'')
       \<and> \<not> isUsefulLink a'"
proof -
  from wwwaxeTree_survivor[OF assms(1,2)] obtain a
    where a: "(t, a) \<in> elemsIn doc" "a' = stripAttributes a opts" "survivor opts t a" by blast
  from a(3) assms(3) have useful: "isUsefulLink a"
    by (simp add: survivor_def REMOVE_TAGS_def)
  have norel: "toLowerCase k \<noteq> ''rel''" if "(k, v) \<in> set a'" for k v
    using that a(2) keepAttribute_rel[of k opts] by (auto simp: stripAttributes_set)
  have "map_of a' ''rel'' = None"
  proof (cases "map_of a' ''rel''")
    case (Some v)
    then have "(''rel'', v) \<in> set a'" by (rule map_of_SomeD)
    moreover have "toLowerCase ''rel'' = ''rel''" by code_simp
    ultimately show ?thesis using norel by blast
  qed simp
  then have "\<not> isUsefulLink a'"
    by (simp add: isUsefulLink_def attrOr_def)
  with a(1,2) useful norel show ?thesis by blast
qed

definition C10_example :: document where
  "C10_example =
     [Element ''link'' [(''rel'', ''canonical''), (''href'', ''/x'')] [],
      Element ''link'' [(''rel'', ''stylesheet''), (''href'', ''/s.css'')] [],
      Element ''p'' [] [Text ''Hi'']]"

theorem C10_link_loses_rel_witness:
  "list_all linksChildless C10_example
   \<and> toLowerCase ''link'' = ''link''
   \<and> wwwaxeTree defaultOptions C10_example
       = [Element ''link'' [(''href'', ''/x'')] [], Element ''p'' [] [Text ''Hi'']]
   \<and> \<not> isUsefulLink [(''href'', ''/x'')]"
proof -
  have "list_all linksChildless C10_example"
    by code_simp
  then have h: "\<forall>n \<in> set C10_example. linksChildless n"
    by (simp add: list_all_iff)
  have l: "toLowerCase ''link'' = ''link''"
    by code_simp
  have v: "wwwaxeTree defaultOptions C10_example
       = [Element ''link'' [(''href'', ''/x'')] [], Element ''p'' [] [Text ''Hi'']]"
    by code_simp
  then have "(''link'', [(''href'', ''/x'')]) \<in> elemsIn (wwwaxeTree defaultOptions C10_example)"
    by simp
  from C10_link_loses_rel[OF h this l] h l v show ?thesis
    by (simp add: list_all_iff)
qed

lemma includesStr_iff: "includesStr s sub \<longleftrightarrow> (\<exists>p q. s = p @ sub @ q)"
proof (induction s)
  case Nil
  show ?case by auto
next
  case (Cons c cs)
  show ?case
  proof
    assume "includesStr (c # cs) sub"
    then consider "prefix sub (c # cs)" | "includesStr cs sub" by auto
    then show "\<exists>p q. c # cs = p @ sub @ q"
    proof cases
      case 1
      then obtain q where "c # cs = sub @ q" by (auto simp: prefix_def)
      then have "c # cs = [] @ sub @ q" by simp
      then show ?thesis by blast
    next
      case 2
      with Cons obtain p q where "cs = p @ sub @ q" by blast
      then have "c # cs = (c # p) @ sub @ q" by simp
      then show ?thesis by blast
    qed
  next
    assume "\<exists>p q. c # cs = p @ sub @ q"
    then obtain p q where pq: "c # cs = p @ sub @ q" by blast
    show "includesStr (c # cs) sub"
    proof (cases p)
      case Nil
      with pq have "prefix sub (c # cs)" by (simp add: prefix_def)
      then show ?thesis by simp
    next
      case (Cons c' p')
      with pq have "cs = p' @ sub @ q" by simp
      with Cons.IH have "includesStr cs sub" by blast
      then show ?thesis by simp
    qed
  qed
qed

lemma isHidden_iff:
  "isHidden a opts \<longleftrightarrow>
     (map_of a ''hidden'' \<noteq> None
      \<or> (map_of a ''aria-hidden'' = Some ''true'' \<and> keepAriaHidden opts \<noteq> Some True)
      \<or> (\<exists>lit \<in> set [''display:none'', ''display: none'', ''visibility:hidden'', ''visibility: hidden''].
            \<exists>p q. attrOr a ''style'' = p @ lit @ q))"
  by (simp add: isHidden_def Let_def truthy_def includesStr_iff del: includesStr.simps)

text \<open>
  C9, as the code has it. An element is hidden if and only if it has a \<open>hidden\<close>
  attribute, or \<open>aria-hidden\<close> is \<open>"true"\<close> while \<open>keepAriaHidden\<close> is not true, or the
  text of its \<open>style\<close> attribute contains one of the four literals. The pruner puts nothing
  in the place of a hidden element, unless the element is a \<open>link\<close> with \<open>rel\<close>
  \<open>canonical\<close> or \<open>alternate\<close>, which is kept before the visibility test is reached.
  It does so at every depth: on a tree of the parser the pruner, and the whole pipeline,
  return what they return on the tree from which every such hidden element is taken out
  with all its descendants, and every element of the pruned tree is an element of the
  input that is not such a hidden element.
\<close>

theorem C9_hidden_removed:
  assumes "\<forall>n \<in> set doc. linksChildless n"
  shows "(isHidden a opts \<longleftrightarrow>
      (map_of a ''hidden'' \<noteq> None
       \<or> (map_of a ''aria-hidden'' = Some ''true'' \<and> keepAriaHidden opts \<noteq> Some True)
       \<or> (\<exists>lit \<in> set [''display:none'', ''display: none'', ''visibility:hidden'', ''visibility: hidden''].
             \<exists>p q. attrOr a ''style'' = p @ lit @ q)))
   \<and> (isHidden a opts \<and> \<not> (toLowerCase tagName = ''link'' \<and> isUsefulLink a)
        \<longrightarrow> processNode opts unwrapTags (Element tagName a cs) = [])
   \<and> processNodes opts unwrapTags (without (hiddenElement opts) doc) = processNodes opts unwrapTags doc
   \<and> wwwaxeTree opts (without (hiddenElement opts) doc) = wwwaxeTree opts doc
   \<and> (\<forall>(t, a') \<in> elemsIn (processNodes opts unwrapTags doc).
         \<exists>a0. (t, a0) \<in> elemsIn doc \<and> a' = stripAttributes a0 opts
            \<and> (isHidden a0 opts \<longrightarrow> toLowerCase t = ''link'' \<and> isUsefulLink a0))"
proof -
  have local: "isHidden a opts \<and> \<not> (toLowerCase tagName = ''link'' \<and> isUsefulLink a)
        \<longrightarrow> processNode opts unwrapTags (Element tagName a cs) = []"
    using hiddenElement_gone[of opts tagName a unwrapTags cs] by (simp add: hiddenElement_def)
  have pruner: "processNodes opts uw (without (hiddenElement opts) doc) = processNodes opts uw doc" for uw
    using processNodes_without[of "hiddenElement opts" opts uw doc] hiddenElement_gone assms
    by (simp add: processNodes_def)
  from pruner have whole: "wwwaxeTree opts (without (hiddenElement opts) doc) = wwwaxeTree opts doc"
    by (rule wwwaxeTree_pruner)
  have kept: "\<exists>a0. (t, a0) \<in> elemsIn doc \<and> a' = stripAttributes a0 opts
            \<and> (isHidden a0 opts \<longrightarrow> toLowerCase t = ''link'' \<and> isUsefulLink a0)"
    if "(t, a') \<in> elemsIn (processNodes opts unwrapTags doc)" for t a'
  proof -
    from processNodes_elems[OF assms that] obtain a0
      where a0: "(t, a0) \<in> elemsIn doc" "a' = stripAttributes a0 opts" "survivor opts t a0" by blast
    from a0(3) have "isHidden a0 opts \<longrightarrow> toLowerCase t = ''link'' \<and> isUsefulLink a0"
      by (auto simp: survivor_def split: if_splits)
    with a0(1,2) show ?thesis by blast
  qed
  from isHidden_iff[of a opts] local pruner[of unwrapTags] whole kept show ?thesis
    by blast
qed

definition C9_example :: document where
  "C9_example =
     [Element ''section'' []
        [Element ''p'' [] [Text ''Shown''],
         Element ''div'' [(''title'', ''t'')]
           [Element ''p'' [(''style'', ''color:red; display: none'')] [Element ''b'' [] [Text ''Hidden'']]]]]"

theorem C9_hidden_removed_witness:
  "list_all linksChildless C9_example
   \<and> isHidden [(''style'', ''color:red; display: none'')] defaultOptions
   \<and> \<not> (toLowerCase ''p'' = ''link'' \<and> isUsefulLink [(''style'', ''color:red; display: none'')])
   \<and> processNode defaultOptions (getUnwrapTags defaultOptions)
        (Element ''p'' [(''style'', ''color:red; display: none'')] [Element ''b'' [] [Text ''Hidden'']]) = []
   \<and> without (hiddenElement defaultOptions) C9_example
        = [Element ''section'' [] [Element ''p'' [] [Text ''Shown''], Element ''div'' [(''title'', ''t'')] []]]
   \<and> processNodes defaultOptions (getUnwrapTags defaultOptions) C9_example
        = [Element ''section'' [] [Element ''p'' [] [Text ''Shown'']]]
   \<and> processNodes defaultOptions (getUnwrapTags defaultOptions) (without (hiddenElement defaultOptions) C9_example)
        = [Element ''section'' [] [Element ''p'' [] [Text ''Shown'']]]
   \<and> wwwaxeTree defaultOptions (without (hiddenElement defaultOptions) C9_example)
        = wwwaxeTree defaultOptions C9_example"
proof -
  have "list_all linksChildless C9_example"
    by code_simp
  then have lc: "\<forall>n \<in> set C9_example. linksChildless n"
    by (simp add: list_all_iff)
  have h: "isHidden [(''style'', ''color:red; display: none'')] defaultOptions"
    by code_simp
  have l: "\<not> (toLowerCase ''p'' = ''link'' \<and> isUsefulLink [(''style'', ''color:red; display: none'')])"
    by code_simp
  have w: "without (hiddenElement defaultOptions) C9_example
        = [Element ''section'' [] [Element ''p'' [] [Text ''Shown''], Element ''div'' [(''title'', ''t'')] []]]"
    by code_simp
  have v: "processNodes defaultOptions (getUnwrapTags defaultOptions) C9_example
        = [Element ''section'' [] [Element ''p'' [] [Text ''Shown'']]]"
    by code_simp
  from C9_hidden_removed[OF lc, of "[(''style'', ''color:red; display: none'')]" defaultOptions "''p''"
      "getUnwrapTags defaultOptions" "[Element ''b'' [] [Text ''Hidden'']]"] h l w v
  show ?thesis using \<open>list_all linksChildless C9_example\<close> by simp
qed

text \<open>
  The claim as it is written fails on a hidden \<open>link\<close> with \<open>rel="canonical"\<close>: it is
  hidden and the pruner keeps it.
\<close>

theorem C9_hidden_link_counterexample:
  "isHidden [(''rel'', ''canonical''), (''href'', ''/x''), (''hidden'', '''')] defaultOptions
   \<and> processNode defaultOptions (getUnwrapTags defaultOptions)
        (Element ''link'' [(''rel'', ''canonical''), (''href'', ''/x''), (''hidden'', '''')] [])
       = [Element ''link'' [(''href'', ''/x'')] []]
   \<and> wwwaxeTree defaultOptions
        [Element ''link'' [(''rel'', ''canonical''), (''href'', ''/x''), (''hidden'', '''')] []]
       = [Element ''link'' [(''href'', ''/x'')] []]"
  by code_simp

lemma markdownRewrite_pre:
  "toLowerCase tagName = ''pre'' \<Longrightarrow>
   markdownRewrite b (Element tagName a cs) =
     Text (NL @ TRIPLE_BACKTICK @ NL
           @ preText (Element tagName a (map (markdownRewrite True) cs)) (map (markdownRewrite True) cs)
           @ NL @ TRIPLE_BACKTICK @ NL)"
  by (simp add: Let_def headingLevel_def)

lemma markdownRewrite_code_in_pre:
  "toLowerCase tagName = ''code'' \<Longrightarrow>
   markdownRewrite True (Element tagName a cs) = Element tagName a (map (markdownRewrite False) cs)"
  by (simp add: Let_def)

lemma preText_eq:
  "preText (Element tagName a cs) cs = concat (map getMdTextContent cs)"
  by (auto simp: preText_def split: list.splits node.splits)

lemma markdownRewrite_no_pre:
  "(t, a) \<in> elems (markdownRewrite b n) \<Longrightarrow> toLowerCase t \<noteq> ''pre''"
proof (induction b n arbitrary: t a rule: markdownRewrite.induct)
  case (4 b tagName a0 cs)
  show ?case
  proof (cases "toLowerCase tagName = ''pre''")
    case True
    with 4(2) show ?thesis
      by (simp add: markdownRewrite_pre del: markdownRewrite.simps)
  next
    case False
    from markdownRewrite_cases[of b tagName a0 cs] 4(2)
    have "(t, a) \<in> elems (Element tagName a0 (map (markdownRewrite (toLowerCase tagName = ''pre'')) cs))"
      by (auto simp del: markdownRewrite.simps)
    then consider "t = tagName" | c where "c \<in> set cs"
        "(t, a) \<in> elems (markdownRewrite (toLowerCase tagName = ''pre'') c)"
      by (auto simp: elemsIn_Union)
    then show ?thesis
    proof cases
      case 1
      with False show ?thesis by simp
    next
      case 2
      from 4(1)[OF refl 2] show ?thesis .
    qed
  qed
qed auto

text \<open>
  C8. The rewriter replaces a \<open>pre\<close> element by one text node: a newline, three
  backticks, a newline, the text, a newline, three backticks, a newline. The text is the
  concatenated text of the rewritten children; when the only child is a \<open>code\<close> element,
  that is the text of this child, which the \<open>code\<close> rule has left an element with its own
  children rewritten. After the rewrite no \<open>pre\<close> element is left.
\<close>

theorem C8_pre_becomes_fenced_text:
  "(toLowerCase tagName = ''pre'' \<longrightarrow>
      markdownRewrite b (Element tagName a cs) =
        Text ([CHR 0x0A, CHR 0x60, CHR 0x60, CHR 0x60, CHR 0x0A]
              @ concat (map (\<lambda>c. getMdTextContent (markdownRewrite True c)) cs)
              @ [CHR 0x0A, CHR 0x60, CHR 0x60, CHR 0x60, CHR 0x0A]))
   \<and> (toLowerCase tagName = ''pre'' \<and> toLowerCase ct = ''code'' \<longrightarrow>
      markdownRewrite b (Element tagName a [Element ct ca cc]) =
        Text ([CHR 0x0A, CHR 0x60, CHR 0x60, CHR 0x60, CHR 0x0A]
              @ getMdTextContent (Element ct ca (map (markdownRewrite False) cc))
              @ [CHR 0x0A, CHR 0x60, CHR 0x60, CHR 0x60, CHR 0x0A]))
   \<and> (toLowerCase ct = ''code'' \<longrightarrow>
      markdownRewrite True (Element ct ca cc) = Element ct ca (map (markdownRewrite False) cc))
   \<and> (\<forall>(t, a') \<in> elemsIn (map (markdownRewrite False) doc). toLowerCase t \<noteq> ''pre'')"
proof -
  have pre: "markdownRewrite b (Element tagName a ks) =
        Text ([CHR 0x0A, CHR 0x60, CHR 0x60, CHR 0x60, CHR 0x0A]
              @ concat (map (\<lambda>c. getMdTextContent (markdownRewrite True c)) ks)
              @ [CHR 0x0A, CHR 0x60, CHR 0x60, CHR 0x60, CHR 0x0A])"
    if "toLowerCase tagName = ''pre''" for ks
    using markdownRewrite_pre[OF that, of b a ks]
    by (simp add: preText_eq NL_def TRIPLE_BACKTICK_def BACKTICK_def comp_def
             del: markdownRewrite.simps)
  have code: "markdownRewrite True (Element ct ca cc) = Element ct ca (map (markdownRewrite False) cc)"
    if "toLowerCase ct = ''code''"
    using that by (rule markdownRewrite_code_in_pre)
  have sole: "markdownRewrite b (Element tagName a [Element ct ca cc]) =
        Text ([CHR 0x0A, CHR 0x60, CHR 0x60, CHR 0x60, CHR 0x0A]
              @ getMdTextContent (Element ct ca (map (markdownRewrite False) cc))
              @ [CHR 0x0A, CHR 0x60, CHR 0x60, CHR 0x60, CHR 0x0A])"
    if "toLowerCase tagName = ''pre''" "toLowerCase ct = ''code''"
    using pre[OF that(1), of "[Element ct ca cc]"] code[OF that(2)]
    by (simp del: markdownRewrite.simps)
  have "toLowerCase t \<noteq> ''pre''" if "(t, a') \<in> elemsIn (map (markdownRewrite False) doc)" for t a'
    using that markdownRewrite_no_pre by (auto simp: elemsIn_Union)
  with pre code sole show ?thesis by blast
qed

theorem C8_pre_becomes_fenced_text_witness:
  "toLowerCase ''pre'' = ''pre'' \<and> toLowerCase ''code'' = ''code''
   \<and> markdownRewrite False (Element ''pre'' [] [Element ''code'' [] [Text ''x = '', Element ''b'' [] [Text ''1'']]])
       = Text ([CHR 0x0A, CHR 0x60, CHR 0x60, CHR 0x60, CHR 0x0A] @ ''x = **1**''
               @ [CHR 0x0A, CHR 0x60, CHR 0x60, CHR 0x60, CHR 0x0A])
   \<and> markdownRewrite True (Element ''code'' [] [Text ''x = '', Element ''b'' [] [Text ''1'']])
       = Element ''code'' [] [Text ''x = '', Text ''**1**'']
   \<and> wwwaxeTree defaultOptions [Element ''section'' [] [Element ''pre'' [] [Text ''a'', Element ''br'' [] [], Text ''b'']]]
       = [Element ''section'' [] [Text ([CHR 0x0A, CHR 0x60, CHR 0x60, CHR 0x60, CHR 0x0A, CHR ''a'', CHR 0x0A, CHR ''b'',
                  CHR 0x0A, CHR 0x60, CHR 0x60, CHR 0x60, CHR 0x0A])]]"
proof -
  have p: "toLowerCase ''pre'' = ''pre''" and c: "toLowerCase ''code'' = ''code''"
    by code_simp+
  have inner: "map (markdownRewrite False) [Text ''x = '', Element ''b'' [] [Text ''1'']]
      = [Text ''x = '', Text ''**1**'']"
    by code_simp
  have w: "wwwaxeTree defaultOptions [Element ''section'' [] [Element ''pre'' [] [Text ''a'', Element ''br'' [] [], Text ''b'']]]
       = [Element ''section'' [] [Text ([CHR 0x0A, CHR 0x60, CHR 0x60, CHR 0x60, CHR 0x0A, CHR ''a'', CHR 0x0A, CHR ''b'',
                  CHR 0x0A, CHR 0x60, CHR 0x60, CHR 0x60, CHR 0x0A])]]"
    by code_simp
  from C8_pre_becomes_fenced_text[of "''pre''" False "[]" "[]" "''code''" "[]"
      "[Text ''x = '', Element ''b'' [] [Text ''1'']]" "[]"] p c inner w
  show ?thesis by (simp del: markdownRewrite.simps)
qed

section \<open>Document order\<close>

text \<open>
  The elements of a tree in document order (depth first, an element before its
  children), to say what "the first element such that" means.
\<close>

fun elements :: "node \<Rightarrow> node list"
  and elementsIn :: "node list \<Rightarrow> node list" where
  "elements (Element tagName a cs) = Element tagName a cs # elementsIn cs"
| "elements (Text d) = []"
| "elements (Comment d) = []"
| "elements (Directive n d) = []"
| "elementsIn [] = []"
| "elementsIn (c # cs) = elements c @ elementsIn cs"

fun tagOf :: "node \<Rightarrow> string" where
  "tagOf (Element tagName a cs) = toLowerCase tagName"
| "tagOf n = []"

fun attribsOf :: "node \<Rightarrow> attribs" where
  "attribsOf (Element tagName a cs) = a"
| "attribsOf n = []"

fun holds :: "(string \<Rightarrow> attribs \<Rightarrow> node list \<Rightarrow> bool) \<Rightarrow> node \<Rightarrow> bool" where
  "holds predicate (Element tagName a cs) = predicate tagName a cs"
| "holds predicate n = False"

lemma find_append:
  "List.find P (xs @ ys) = (case List.find P xs of Some x \<Rightarrow> Some x | None \<Rightarrow> List.find P ys)"
  by (induction xs) auto

lemma find_filter: "List.find P (filter Q xs) = List.find (\<lambda>x. Q x \<and> P x) xs"
  by (induction xs) auto

lemma findElement_find:
  "findElement n t = List.find (\<lambda>e. tagOf e = t) (elements n)"
  "findElementIn cs t = List.find (\<lambda>e. tagOf e = t) (elementsIn cs)"
  by (induction n t and cs t rule: findElement_findElementIn.induct)
     (auto simp: find_append split: option.splits)

lemma findById_find:
  "findById n i = List.find (\<lambda>e. map_of (attribsOf e) ''id'' = Some i) (elements n)"
  "findByIdIn cs i = List.find (\<lambda>e. map_of (attribsOf e) ''id'' = Some i) (elementsIn cs)"
  by (induction n i and cs i rule: findById_findByIdIn.induct)
     (auto simp: find_append split: option.splits)

lemma elementsIn_concat: "elementsIn cs = concat (map elements cs)"
  by (induction cs) auto

lemma findElements_filter:
  "findElements n predicate = filter (holds predicate) (elements n)"
proof (induction n predicate rule: findElements.induct)
  case (1 tagName a cs predicate)
  have "concat (map (\<lambda>c. findElements c predicate) cs)
      = concat (map (\<lambda>c. filter (holds predicate) (elements c)) cs)"
    using 1 by (intro arg_cong[where f=concat] map_cong) auto
  also have "\<dots> = filter (holds predicate) (elementsIn cs)"
    by (simp add: elementsIn_concat filter_concat comp_def)
  finally show ?case by simp
qed auto

lemma findElementsIn_filter:
  "findElementsIn cs predicate = filter (holds predicate) (elementsIn cs)"
  by (simp add: findElementsIn_def findElements_filter elementsIn_concat filter_concat comp_def)

lemma attrTruthy_iff: "attrTruthy a k \<longleftrightarrow> attrOr a k \<noteq> []"
  by (simp add: attrTruthy_def attrOr_def split: option.splits)

lemma firstAttrib_find:
  "wanted \<noteq> [] \<Longrightarrow> firstAttrib k wanted v els =
     map_option (\<lambda>m. trim (attrOr (attribsOf m) v))
       (List.find (\<lambda>m. toLowerCase (attrOr (attribsOf m) k) = wanted \<and> attrOr (attribsOf m) v \<noteq> [])
          els)"
  by (induction k wanted v els rule: firstAttrib.induct)
     (auto simp: attrTruthy_iff attrOr_def)

lemma extractFrontmatter_description:
  "findElementIn doc ''head'' = Some head \<Longrightarrow>
   data_description (extractFrontmatter doc) =
     firstAttrib ''name'' ''description'' ''content'' (findElements head isMeta)"
  by (simp add: extractFrontmatter_def Let_def)

text \<open>
  C7 as the claim words it: the first \<open>meta\<close> named \<open>description\<close> whose content is
  neither empty nor white space only gives the field.
\<close>

definition claimedDescription :: "node \<Rightarrow> string option" where
  "claimedDescription head =
     map_option (\<lambda>m. trim (attrOr (attribsOf m) ''content''))
       (List.find (\<lambda>m. tagOf m = ''meta''
                     \<and> toLowerCase (attrOr (attribsOf m) ''name'') = ''description''
                     \<and> trim (attrOr (attribsOf m) ''content'') \<noteq> [])
          (elements head))"

definition C7_example :: document where
  "C7_example =
     [Element ''html'' []
        [Element ''head'' []
           [Element ''meta'' [(''name'', ''description''), (''content'', ''  '')] [],
            Element ''meta'' [(''name'', ''Description''), (''content'', '' Real '')] []],
         Element ''body'' [] [Element ''p'' [] [Text ''Hi'']]]]"

definition C7_head :: node where
  "C7_head =
     Element ''head'' []
       [Element ''meta'' [(''name'', ''description''), (''content'', ''  '')] [],
        Element ''meta'' [(''name'', ''Description''), (''content'', '' Real '')] []]"

text \<open>
  C7, as the code has it. The field is the trimmed content of the first \<open>meta\<close> element of
  the first \<open>head\<close>, in document order, whose name is \<open>description\<close> in any case and whose
  content is a non-empty string; the content is tested before it is trimmed, so white
  space counts. Without such an element the field is absent.
\<close>

theorem C7_description_first_nonempty:
  assumes "findElementIn doc ''head'' = Some head"
  shows "data_description (extractFrontmatter doc) =
     map_option (\<lambda>m. trim (attrOr (attribsOf m) ''content''))
       (List.find (\<lambda>m. tagOf m = ''meta''
                     \<and> toLowerCase (attrOr (attribsOf m) ''name'') = ''description''
                     \<and> attrOr (attribsOf m) ''content'' \<noteq> [])
          (elements head))"
proof -
  have "holds isMeta m \<longleftrightarrow> tagOf m = ''meta'' \<and> (\<exists>t a cs. m = Element t a cs)" for m
    by (cases m) (auto simp: isMeta_def)
  moreover have "\<exists>t a cs. m = Element t a cs" if "toLowerCase (attrOr (attribsOf m) ''name'') = ''description''" for m
    using that by (cases m) (auto simp: attrOr_def)
  ultimately have "(holds isMeta m \<and> toLowerCase (attrOr (attribsOf m) ''name'') = ''description''
        \<and> attrOr (attribsOf m) ''content'' \<noteq> [])
     \<longleftrightarrow> (tagOf m = ''meta'' \<and> toLowerCase (attrOr (attribsOf m) ''name'') = ''description''
        \<and> attrOr (attribsOf m) ''content'' \<noteq> [])" for m
    by blast
  then show ?thesis
    by (simp add: extractFrontmatter_description[OF assms] firstAttrib_find findElements_filter
          find_filter)
qed

theorem C7_description_first_nonempty_witness:
  "findElementIn C7_example ''head'' = Some C7_head
   \<and> data_description (extractFrontmatter C7_example) = Some []
   \<and> List.find (\<lambda>m. tagOf m = ''meta''
                     \<and> toLowerCase (attrOr (attribsOf m) ''name'') = ''description''
                     \<and> attrOr (attribsOf m) ''content'' \<noteq> [])
          (elements C7_head)
       = Some (Element ''meta'' [(''name'', ''description''), (''content'', ''  '')] [])"
proof -
  have h: "findElementIn C7_example ''head'' = Some C7_head"
    by code_simp
  have f: "List.find (\<lambda>m. tagOf m = ''meta''
                     \<and> toLowerCase (attrOr (attribsOf m) ''name'') = ''description''
                     \<and> attrOr (attribsOf m) ''content'' \<noteq> [])
          (elements C7_head)
       = Some (Element ''meta'' [(''name'', ''description''), (''content'', ''  '')] [])"
    by code_simp
  have "trim ''  '' = []" by code_simp
  with C7_description_first_nonempty[OF h] f h show ?thesis
    by (simp add: attrOr_def)
qed

text \<open>
  The claim as it is written fails when a \<open>meta\<close> with white space only content comes
  first: the loop stops at it and the field is the empty string, not the content of the
  later element.
\<close>

theorem C7_whitespace_content_counterexample:
  "findElementIn C7_example ''head'' = Some C7_head
   \<and> data_description (extractFrontmatter C7_example) = Some []
   \<and> claimedDescription C7_head = Some ''Real''"
  by code_simp

text \<open>
  White space here is what \<open>trim\<close> removes: a content of one no-break space is a
  non-empty string that trims to the empty one, and no-break spaces around a text go.
\<close>

lemma description_no_break_space:
  "data_description (extractFrontmatter
     [Element ''head'' [] [Element ''meta'' [(''name'', ''description''),
        (''content'', [CHR 0xC2, CHR 0xA0] @ ''Real'' @ [CHR 0xC2, CHR 0xA0])] []]]) = Some ''Real''"
  "data_description (extractFrontmatter
     [Element ''head'' [] [Element ''meta'' [(''name'', ''description''), (''content'', [CHR 0xC2, CHR 0xA0])] [],
                           Element ''meta'' [(''name'', ''description''), (''content'', ''Real'')] []]]) = Some []"
  by code_simp+

lemma skipTarget_find:
  "skipTarget doc links =
     (case List.find (\<lambda>l. drop 1 (hrefOf l) \<noteq> [] \<and> findByIdIn doc (drop 1 (hrefOf l)) \<noteq> None) links of
        None \<Rightarrow> None
      | Some l \<Rightarrow> findByIdIn doc (drop 1 (hrefOf l)))"
  by (induction doc links rule: skipTarget.induct) (auto simp: Let_def split: option.splits)

lemma firstById_find:
  "firstById doc ids =
     (case List.find (\<lambda>i. findByIdIn doc i \<noteq> None) ids of
        None \<Rightarrow> None
      | Some i \<Rightarrow> findByIdIn doc i)"
  by (induction doc ids rule: firstById.induct) (auto split: option.splits)

lemma mainEl_None_iff:
  "mainEl doc = None \<longleftrightarrow>
     \<not> (\<exists>e \<in> set (elementsIn doc). tagOf e = ''main'')
     \<and> \<not> (\<exists>e \<in> set (elementsIn doc). holds hasRoleMain e)"
proof -
  have "(findElementIn doc ''main'' = None) = (\<not> (\<exists>e \<in> set (elementsIn doc). tagOf e = ''main''))"
    by (auto simp: findElement_find find_None_iff)
  moreover have "(findElementsIn doc hasRoleMain = []) = (\<not> (\<exists>e \<in> set (elementsIn doc). holds hasRoleMain e))"
    by (auto simp: findElementsIn_filter filter_empty_conv)
  ultimately show ?thesis
    by (auto simp: mainEl_def split: option.splits list.splits)
qed

lemma holds_hasRoleMain:
  "holds hasRoleMain e \<longleftrightarrow> (\<exists>t a cs. e = Element t a cs) \<and> toLowerCase (attrOr (attribsOf e) ''role'') = ''main''"
  by (cases e) (auto simp: hasRoleMain_def)

text \<open>
  The fallback in the words of the claim, over the elements in document order. In
  \<open>claimedCoreContent\<close> step 2 looks at the first skip link only; in \<open>orderedCoreContent\<close>
  it takes the first skip link whose fragment is not empty and names an element.
\<close>

definition hasId :: "string \<Rightarrow> node \<Rightarrow> bool" where
  "hasId i e = (map_of (attribsOf e) ''id'' = Some i)"

definition fragmentOf :: "node \<Rightarrow> string" where
  "fragmentOf l = drop 1 (attrOr (attribsOf l) ''href'')"

definition claimedCoreContent :: "document \<Rightarrow> node option" where
  "claimedCoreContent doc =
     (case List.find (\<lambda>e. tagOf e = ''article'') (elementsIn doc) of
        Some article \<Rightarrow> Some article
      | None \<Rightarrow>
          (case (case List.find (holds isSkipLink) (elementsIn doc) of
                   None \<Rightarrow> None
                 | Some l \<Rightarrow>
                     if fragmentOf l = [] then None
                     else List.find (hasId (fragmentOf l)) (elementsIn doc)) of
             Some target \<Rightarrow> Some target
           | None \<Rightarrow>
               (case List.find (\<lambda>i. List.find (hasId i) (elementsIn doc) \<noteq> None)
                       [''main-content'', ''content'', ''main'', ''page-content'', ''site-content''] of
                  None \<Rightarrow> None
                | Some i \<Rightarrow> List.find (hasId i) (elementsIn doc))))"

definition orderedCoreContent :: "document \<Rightarrow> node option" where
  "orderedCoreContent doc =
     (case List.find (\<lambda>e. tagOf e = ''article'') (elementsIn doc) of
        Some article \<Rightarrow> Some article
      | None \<Rightarrow>
          (case List.find (\<lambda>l. holds isSkipLink l \<and> fragmentOf l \<noteq> []
                                \<and> List.find (hasId (fragmentOf l)) (elementsIn doc) \<noteq> None)
                  (elementsIn doc) of
             Some l \<Rightarrow> List.find (hasId (fragmentOf l)) (elementsIn doc)
           | None \<Rightarrow>
               (case List.find (\<lambda>i. List.find (hasId i) (elementsIn doc) \<noteq> None)
                       [''main-content'', ''content'', ''main'', ''page-content'', ''site-content''] of
                  None \<Rightarrow> None
                | Some i \<Rightarrow> List.find (hasId i) (elementsIn doc))))"

lemma hrefOf_fragment: "drop 1 (hrefOf l) = fragmentOf l"
  by (cases l) (simp_all add: fragmentOf_def attrOr_def)

lemma hasId_fun: "hasId i = (\<lambda>e. map_of (attribsOf e) ''id'' = Some i)"
  by (simp add: hasId_def fun_eq_iff)

lemma findByIdIn_hasId: "findByIdIn doc i = List.find (hasId i) (elementsIn doc)"
  by (simp add: findById_find hasId_fun)

lemma find_Some_resolves:
  "List.find (\<lambda>l. P l \<and> f l \<noteq> None) xs = Some l \<Longrightarrow> f l \<noteq> None"
  by (induction xs) (auto split: if_splits)

lemma findCoreContent_ordered: "findCoreContent doc = orderedCoreContent doc"
proof -
  let ?skip = "List.find (\<lambda>l. holds isSkipLink l \<and> fragmentOf l \<noteq> []
                   \<and> List.find (hasId (fragmentOf l)) (elementsIn doc) \<noteq> None) (elementsIn doc)"
  have skip: "skipTarget doc (findElementsIn doc isSkipLink)
      = (case ?skip of None \<Rightarrow> None | Some l \<Rightarrow> List.find (hasId (fragmentOf l)) (elementsIn doc))"
    unfolding skipTarget_find findElementsIn_filter find_filter hrefOf_fragment findByIdIn_hasId ..
  have ids: "firstById doc WELL_KNOWN_CONTENT_IDS
      = (case List.find (\<lambda>i. List.find (hasId i) (elementsIn doc) \<noteq> None)
                [''main-content'', ''content'', ''main'', ''page-content'', ''site-content''] of
           None \<Rightarrow> None
         | Some i \<Rightarrow> List.find (hasId i) (elementsIn doc))"
    by (simp only: firstById_find findByIdIn_hasId WELL_KNOWN_CONTENT_IDS_def)
  show ?thesis
  proof (cases ?skip)
    case None
    with skip have "skipTarget doc (findElementsIn doc isSkipLink) = None" by simp
    with None ids show ?thesis
      by (simp add: findCoreContent_def orderedCoreContent_def findElement_find
            split: option.splits)
  next
    case (Some l)
    from find_Some_resolves[OF Some[unfolded conj_assoc[symmetric]]]
    obtain target where target: "List.find (hasId (fragmentOf l)) (elementsIn doc) = Some target"
      by blast
    with skip Some have "skipTarget doc (findElementsIn doc isSkipLink) = Some target" by simp
    with Some target show ?thesis
      by (simp add: findCoreContent_def orderedCoreContent_def findElement_find
            split: option.splits)
  qed
qed

definition claimedStripChrome :: "document \<Rightarrow> document" where
  "claimedStripChrome doc =
     (let stripped = removeChromeElements doc in
      if \<exists>e \<in> set (elementsIn stripped).
           tagOf e = ''main'' \<or> toLowerCase (attrOr (attribsOf e) ''role'') = ''main''
      then stripped
      else (case claimedCoreContent stripped of Some e \<Rightarrow> [e] | None \<Rightarrow> stripped))"

definition C3_example :: document where
  "C3_example =
     [Element ''nav'' [] [Element ''article'' [] [Text ''in nav'']],
      Element ''a'' [(''href'', ''#nope'')] [Text ''Skip navigation''],
      Element ''a'' [(''href'', ''#x'')] [Text ''SKIP to content''],
      Element ''p'' [(''id'', ''content'')] [Text ''C''],
      Element ''section'' [] [Element ''p'' [(''id'', ''x'')] [Text ''X''], Text ''after'']]"

lemma elements_are_elements:
  "e \<in> set (elements n) \<Longrightarrow> \<exists>t a cs. e = Element t a cs"
  "e \<in> set (elementsIn ns) \<Longrightarrow> \<exists>t a cs. e = Element t a cs"
  by (induction n and ns arbitrary: e and e rule: elements_elementsIn.induct) auto

text \<open>
  C3, as the code has it. After the chrome is removed, a \<open>main\<close> element or an element
  with role \<open>main\<close> leaves the tree as it is. Otherwise the first match of this list
  replaces the child list of the document: the first \<open>article\<close>; the target of the first
  skip link, in document order, whose fragment is not empty and is the id of an element;
  the first element with the first well-known id that some element has. The element that
  replaces the child list gets the document as its parent and no previous and no next
  sibling, which are the link fields of the only child of the document. Without a match
  the tree stays as the chrome removal left it and no link field is assigned.
\<close>

theorem C3_core_fallback_order:
  "stripChrome doc =
     (let stripped = removeChromeElements doc in
      if \<exists>e \<in> set (elementsIn stripped).
           tagOf e = ''main'' \<or> toLowerCase (attrOr (attribsOf e) ''role'') = ''main''
      then stripped
      else (case orderedCoreContent stripped of Some e \<Rightarrow> [e] | None \<Rightarrow> stripped))
   \<and> stripChromeLinks doc before =
     (let stripped = removeChromeElements doc in
      if \<exists>e \<in> set (elementsIn stripped).
           tagOf e = ''main'' \<or> toLowerCase (attrOr (attribsOf e) ''role'') = ''main''
      then None
      else (case orderedCoreContent stripped of
              Some e \<Rightarrow> Some (linksOfChild DocumentNode [] 0 (length (stripChrome doc)))
            | None \<Rightarrow> None))
   \<and> linksOfChild DocumentNode [] 0 1
       = \<lparr>link_parent = DocumentNode, link_prev = Null, link_next = Null\<rparr>"
proof -
  let ?d = "removeChromeElements doc"
  have "holds hasRoleMain e \<longleftrightarrow> toLowerCase (attrOr (attribsOf e) ''role'') = ''main''"
    if "e \<in> set (elementsIn ?d)" for e
    using elements_are_elements(2)[OF that] by (auto simp: hasRoleMain_def)
  then have m: "mainEl ?d = None \<longleftrightarrow>
      \<not> (\<exists>e \<in> set (elementsIn ?d).
            tagOf e = ''main'' \<or> toLowerCase (attrOr (attribsOf e) ''role'') = ''main'')"
    unfolding mainEl_None_iff by blast
  then have tree: "stripChrome doc =
     (let stripped = removeChromeElements doc in
      if \<exists>e \<in> set (elementsIn stripped).
           tagOf e = ''main'' \<or> toLowerCase (attrOr (attribsOf e) ''role'') = ''main''
      then stripped
      else (case orderedCoreContent stripped of Some e \<Rightarrow> [e] | None \<Rightarrow> stripped))"
    by (auto simp: stripChrome_def Let_def findCoreContent_ordered split: option.splits)
  have only: "linksOfChild DocumentNode [] 0 1
       = \<lparr>link_parent = DocumentNode, link_prev = Null, link_next = Null\<rparr>"
    by (simp add: linksOfChild_def)
  have one: "length (stripChrome doc) = 1"
    if "mainEl ?d = None" "orderedCoreContent ?d = Some e" for e
    using that by (simp add: stripChrome_def Let_def findCoreContent_ordered)
  have links: "stripChromeLinks doc before =
     (let stripped = removeChromeElements doc in
      if \<exists>e \<in> set (elementsIn stripped).
           tagOf e = ''main'' \<or> toLowerCase (attrOr (attribsOf e) ''role'') = ''main''
      then None
      else (case orderedCoreContent stripped of
              Some e \<Rightarrow> Some (linksOfChild DocumentNode [] 0 (length (stripChrome doc)))
            | None \<Rightarrow> None))"
  proof (cases "mainEl ?d")
    case None
    show ?thesis
    proof (cases "orderedCoreContent ?d")
      case n: None
      with None m show ?thesis
        by (simp add: stripChromeLinks_def Let_def findCoreContent_ordered)
    next
      case (Some e)
      with None m one[OF None Some] only show ?thesis
        by (simp add: stripChromeLinks_def Let_def findCoreContent_ordered)
    qed
  next
    case (Some mm)
    with m show ?thesis
      by (simp add: stripChromeLinks_def Let_def)
  qed
  from tree links only show ?thesis by (rule conjI[OF _ conjI])
qed

theorem C3_core_fallback_order_witness:
  "removeChromeElements C3_example = tl C3_example
   \<and> orderedCoreContent (tl C3_example) = Some (Element ''p'' [(''id'', ''x'')] [Text ''X''])
   \<and> stripChrome C3_example = [Element ''p'' [(''id'', ''x'')] [Text ''X'']]
   \<and> stripChromeLinks C3_example \<lparr>link_parent = NodeAt [3], link_prev = Null, link_next = NodeAt [3, 1]\<rparr>
       = Some \<lparr>link_parent = DocumentNode, link_prev = Null, link_next = Null\<rparr>"
proof -
  have r: "removeChromeElements C3_example = tl C3_example"
    by code_simp
  have o: "orderedCoreContent (tl C3_example) = Some (Element ''p'' [(''id'', ''x'')] [Text ''X''])"
    by code_simp
  have m: "\<not> (\<exists>e \<in> set (elementsIn (tl C3_example)).
           tagOf e = ''main'' \<or> toLowerCase (attrOr (attribsOf e) ''role'') = ''main'')"
    by code_simp
  from C3_core_fallback_order[of C3_example
      "\<lparr>link_parent = NodeAt [3], link_prev = Null, link_next = NodeAt [3, 1]\<rparr>"] r o m
  show ?thesis
    by (simp add: Let_def)
qed

text \<open>
  The claim as it is written fails when the first skip link names no element and a later
  one does: the code goes on to the later link, the claim to the well-known ids.
\<close>

theorem C3_second_skip_link_counterexample:
  "stripChrome C3_example = [Element ''p'' [(''id'', ''x'')] [Text ''X'']]
   \<and> claimedStripChrome C3_example = [Element ''p'' [(''id'', ''content'')] [Text ''C'']]
   \<and> wwwaxeTree (defaultOptions\<lparr>core := Some True, markdown := Some False\<rparr>) C3_example
       = [Element ''p'' [(''id'', ''x'')] [Text ''X'']]"
  by code_simp

section \<open>Running the pipeline on its own output\<close>

declare hasMeaningfulContent.simps [simp del]

text \<open>
  \<open>sanitized\<close> collects the tests of \<open>processNode\<close> that read the tag and the attributes
  of an element, for an element that passes them all with attributes that the sanitizer
  leaves as they are. \<open>contentful\<close> says that neither emptiness test of \<open>processNode\<close>
  removes an element of the tree.
\<close>

definition sanitized :: "options \<Rightarrow> string list \<Rightarrow> string \<Rightarrow> attribs \<Rightarrow> bool" where
  "sanitized opts unwrapTags tagName a =
     (let tag = toLowerCase tagName in
        tag \<notin> set REMOVE_TAGS \<and> \<not> isHidden a opts
      \<and> \<not> (tag = ''meta'' \<and> \<not> isUsefulMeta a)
      \<and> stripAttributes a opts = a
      \<and> \<not> (tag \<notin> set KEEP_TAGS \<and> tag \<in> set unwrapTags \<and> \<not> hasContentAttributes a opts))"

fun contentful :: "node \<Rightarrow> bool" where
  "contentful (Element tagName a cs) =
     (let tag = toLowerCase tagName in
        \<not> (tag \<notin> set KEEP_TAGS \<and> \<not> hasMeaningfulContent (Element tagName a cs))
      \<and> \<not> (tag \<notin> set voidElements \<and> tag \<notin> set headElements
             \<and> \<not> hasMeaningfulContent (Element tagName a cs))
      \<and> (\<forall>c \<in> set cs. contentful c))"
| "contentful (Text d) = True"
| "contentful (Comment d) = True"
| "contentful (Directive n d) = True"

lemma concat_map_singleton: "(\<And>c. c \<in> set cs \<Longrightarrow> f c = [c]) \<Longrightarrow> concat (map f cs) = cs"
  by (induction cs) auto

lemma processNode_kept_eq:
  "toLowerCase tagName \<notin> set REMOVE_TAGS \<Longrightarrow> \<not> isHidden a opts \<Longrightarrow>
   \<not> (toLowerCase tagName = ''meta'' \<and> \<not> isUsefulMeta a) \<Longrightarrow>
   processNode opts uw (Element tagName a cs) =
     (if toLowerCase tagName \<notin> set KEEP_TAGS \<and> toLowerCase tagName \<in> set uw
          \<and> \<not> hasContentAttributes (stripAttributes a opts) opts
      then concat (map (processNode opts uw) cs)
      else if toLowerCase tagName \<notin> set KEEP_TAGS
          \<and> \<not> hasMeaningfulContent
                (Element tagName (stripAttributes a opts) (concat (map (processNode opts uw) cs)))
      then []
      else if toLowerCase tagName \<notin> set voidElements \<and> toLowerCase tagName \<notin> set headElements
          \<and> \<not> hasMeaningfulContent
                (Element tagName (stripAttributes a opts) (concat (map (processNode opts uw) cs)))
      then []
      else [Element tagName (stripAttributes a opts) (concat (map (processNode opts uw) cs))])"
  by (simp only: processNode.simps Let_def if_False)

lemma elems_child: "c \<in> set cs \<Longrightarrow> elems c \<subseteq> elemsIn cs"
  by (auto simp: elemsIn_Union)

lemma comments_child: "c \<in> set cs \<Longrightarrow> comments c \<subseteq> commentsIn cs"
  by (auto simp: commentsIn_Union)

lemma processNode_fixed:
  "\<forall>(t, a) \<in> elems n. sanitized opts uw t a \<Longrightarrow> contentful n \<Longrightarrow> comments n = {} \<Longrightarrow>
   processNode opts uw n = [n]"
proof (induction opts uw n rule: processNode.induct)
  case (4 opts uw tagName a cs)
  from 4(2) have self: "sanitized opts uw tagName a" by simp
  then have shape: "toLowerCase tagName \<notin> set REMOVE_TAGS" "\<not> isHidden a opts"
      "\<not> (toLowerCase tagName = ''meta'' \<and> \<not> isUsefulMeta a)"
    and same: "stripAttributes a opts = a"
    and wrap: "\<not> (toLowerCase tagName \<notin> set KEEP_TAGS \<and> toLowerCase tagName \<in> set uw
                 \<and> \<not> hasContentAttributes a opts)"
    by (simp_all add: sanitized_def Let_def)
  have kids: "concat (map (processNode opts uw) cs) = cs"
  proof (rule concat_map_singleton)
    fix c assume c: "c \<in> set cs"
    from 4(2) elems_child[OF c] have 1: "\<forall>(t, a) \<in> elems c. sanitized opts uw t a" by auto
    from 4(3) c have 2: "contentful c" by (simp add: Let_def)
    from 4(4) comments_child[OF c] have 3: "comments c = {}" by auto
    from 4(1)[OF refl shape(1) shape(2) shape(3) c 1 2 3] show "processNode opts uw c = [c]" .
  qed
  from 4(3) have full: "\<not> (toLowerCase tagName \<notin> set KEEP_TAGS \<and> \<not> hasMeaningfulContent (Element tagName a cs))"
      "\<not> (toLowerCase tagName \<notin> set voidElements \<and> toLowerCase tagName \<notin> set headElements
             \<and> \<not> hasMeaningfulContent (Element tagName a cs))"
    by (simp_all add: Let_def)
  show ?case
    unfolding processNode_kept_eq[OF shape] kids same
    using wrap full by (simp only: if_False)
qed simp_all

lemma processNodes_fixed:
  assumes "\<forall>(t, a) \<in> elemsIn doc. sanitized opts uw t a" and "\<forall>n \<in> set doc. contentful n"
    and "commentsIn doc = {}"
  shows "processNodes opts uw doc = doc"
  unfolding processNodes_def
proof (rule concat_map_singleton)
  fix c assume c: "c \<in> set doc"
  from assms(1) elems_child[OF c] have 1: "\<forall>(t, a) \<in> elems c. sanitized opts uw t a" by auto
  from assms(3) comments_child[OF c] have 3: "comments c = {}" by auto
  from assms(2) c show "processNode opts uw c = [c]"
    by (intro processNode_fixed 1 3) simp
qed

lemma map_of_stripAttributes:
  "map_of (stripAttributes a opts) k = (if keepAttribute opts k then map_of a k else None)"
  by (induction a) (auto simp: stripAttributes_def)

lemma stripAttributes_idem: "stripAttributes (stripAttributes a opts) opts = stripAttributes a opts"
  by (simp add: stripAttributes_def)

lemma toLowerCase_names:
  "toLowerCase ''hidden'' = ''hidden''" "toLowerCase ''aria-hidden'' = ''aria-hidden''"
  "toLowerCase ''style'' = ''style''" "toLowerCase ''name'' = ''name''"
  "toLowerCase ''property'' = ''property''" "toLowerCase ''http-equiv'' = ''http-equiv''"
  "toLowerCase ''charset'' = ''charset''" "toLowerCase ''rel'' = ''rel''"
  by code_simp+

lemma not_kept_names:
  "\<not> keepAttribute opts ''hidden''" "\<not> keepAttribute opts ''aria-hidden''"
  "\<not> keepAttribute opts ''style''"
  by (simp_all add: keepAttribute_def Let_def toLowerCase_names isEventAttribute_def
        isDataAttribute_def CONTENT_ATTRIBUTES_def)

lemma kept_names:
  "keepAttribute opts ''name''" "keepAttribute opts ''property''"
  "keepAttribute opts ''http-equiv''" "keepAttribute opts ''charset''"
  by (simp_all add: keepAttribute_def Let_def toLowerCase_names isEventAttribute_def
        isDataAttribute_def CONTENT_ATTRIBUTES_def)

lemma stripAttributes_not_hidden: "\<not> isHidden (stripAttributes a opts) opts"
  by (simp add: isHidden_def Let_def attrOr_def map_of_stripAttributes not_kept_names)

lemma stripAttributes_isUsefulMeta:
  "isUsefulMeta (stripAttributes a opts) = isUsefulMeta a"
  by (simp add: isUsefulMeta_def attrOr_def attrTruthy_def map_of_stripAttributes kept_names)

text \<open>
  Every element that the pruner leaves in the tree is sanitized, but a \<open>link\<close>: a kept
  \<open>link\<close> has lost the \<open>rel\<close> that made the pruner keep it.
\<close>

lemma processNode_sanitized:
  "linksChildless n \<Longrightarrow> (t, a') \<in> elemsIn (processNode opts uw n) \<Longrightarrow>
   toLowerCase t \<noteq> ''link'' \<Longrightarrow> sanitized opts uw t a'"
proof (induction opts uw n arbitrary: t a' rule: processNode.induct)
  case (4 opts uw tagName a cs)
  let ?cs' = "concat (map (processNode opts uw) cs)"
  let ?a' = "stripAttributes a opts"
  show ?case
  proof (cases "toLowerCase tagName \<in> set REMOVE_TAGS")
    case True
    with 4(2,3,4) show ?thesis
      by (auto simp: processNode_remove simp del: processNode.simps split: if_splits)
  next
    case False
    show ?thesis
    proof (cases "isHidden a opts \<or> (toLowerCase tagName = ''meta'' \<and> \<not> isUsefulMeta a)")
      case True
      with False 4(3) show ?thesis
        by (auto simp: processNode_hidden processNode_meta simp del: processNode.simps)
    next
      case nh: False
      then have h: "\<not> isHidden a opts" "\<not> (toLowerCase tagName = ''meta'' \<and> \<not> isUsefulMeta a)"
        by auto
      have kids: "sanitized opts uw t a'" if "(t, a') \<in> elemsIn ?cs'"
      proof -
        from that obtain c where c: "c \<in> set cs" "(t, a') \<in> elemsIn (processNode opts uw c)"
          by (auto simp: elemsIn_concat)
        from 4(2) c(1) have "linksChildless c" by simp
        from 4(1)[OF refl False h(1) h(2) c(1) this c(2) 4(4)] show ?thesis .
      qed
      note eq = processNode_kept_eq[OF False h, of uw cs]
      show ?thesis
      proof (cases "(t, a') \<in> elemsIn ?cs'")
        case True
        then show ?thesis by (rule kids)
      next
        case notkid: False
        with 4(3) eq have m: "t = tagName" "a' = ?a'"
          and c1: "\<not> (toLowerCase tagName \<notin> set KEEP_TAGS \<and> toLowerCase tagName \<in> set uw
                    \<and> \<not> hasContentAttributes ?a' opts)"
          by (auto simp del: processNode.simps split: if_splits)
        from False h c1 have "sanitized opts uw tagName ?a'"
          by (simp add: sanitized_def Let_def stripAttributes_not_hidden stripAttributes_isUsefulMeta
                stripAttributes_idem)
        with m show ?thesis by simp
      qed
    qed
  qed
qed auto

lemma wwwaxeTree_sanitized:
  assumes "\<forall>n \<in> set doc. linksChildless n" and "(t, a) \<in> elemsIn (wwwaxeTree opts doc)"
    and "toLowerCase t \<noteq> ''link''"
  shows "sanitized opts (getUnwrapTags opts) t a"
proof -
  from assms(2) wwwaxeTree_elems[of opts doc]
  have "(t, a) \<in> elemsIn (processNodes opts (getUnwrapTags opts) doc)" by blast
  then obtain n where n: "n \<in> set doc" "(t, a) \<in> elemsIn (processNode opts (getUnwrapTags opts) n)"
    by (auto simp: processNodes_def elemsIn_concat)
  with assms(1,3) show ?thesis by (intro processNode_sanitized[of n]) auto
qed

lemma removeChromeElements_fixed:
  "\<forall>(t, a) \<in> elemsIn cs. \<not> isChrome t a \<Longrightarrow> removeChromeElements cs = cs"
  by (induction cs rule: removeChromeElements.induct) auto

lemma findElementPath_None:
  "\<forall>(tg, a) \<in> elems n. toLowerCase tg \<noteq> t \<Longrightarrow> findElementPath n t = None"
  "\<forall>(tg, a) \<in> elemsIn cs. toLowerCase tg \<noteq> t \<Longrightarrow> findElementPathIn cs i t = None"
  by (induction n t and cs i t rule: findElementPath_findElementPathIn.induct) auto

lemma removeDocumentWrappers_no_html:
  "\<forall>(tg, a) \<in> elemsIn doc. toLowerCase tg \<noteq> ''html'' \<Longrightarrow> removeDocumentWrappers doc = doc"
  by (simp add: removeDocumentWrappers_def findElementPath_None(2))

subsection \<open>The whitespace passes\<close>

lemma collapseRuns_none: "\<forall>c \<in> set s. \<not> P c \<Longrightarrow> collapseRuns P s = s"
proof (induction P s rule: collapseRuns.induct)
  case (2 P c cs)
  from 2(3) have "\<not> P c" "\<forall>x \<in> set cs. \<not> P x" by simp_all
  with 2(2) show ?case by simp
qed simp

lemma collapseRuns_clears: "\<not> P CHR '' '' \<Longrightarrow> \<forall>c \<in> set (collapseRuns P s). \<not> P c"
proof (induction P s rule: collapseRuns.induct)
  case (1 P) show ?case by simp
next
  case (2 P c cs)
  show ?case
  proof (cases "P c")
    case True
    from 2(1)[OF True 2(3)] have "\<forall>x \<in> set (collapseRuns P (dropWhile P cs)). \<not> P x" .
    moreover have "collapseRuns P (c # cs) = CHR '' '' # collapseRuns P (dropWhile P cs)"
      using True by simp
    ultimately show ?thesis using 2(3) by (metis set_ConsD)
  next
    case False
    from 2(2)[OF False 2(3)] have "\<forall>x \<in> set (collapseRuns P cs). \<not> P x" .
    moreover have "collapseRuns P (c # cs) = c # collapseRuns P cs"
      using False by simp
    ultimately show ?thesis using False by (metis set_ConsD)
  qed
qed


lemma collapseRuns_set: "set (collapseRuns P s) \<subseteq> insert CHR '' '' (set s)"
proof (induction P s rule: collapseRuns.induct)
  case (2 P c cs)
  show ?case
  proof (cases "P c")
    case True
    have "set (dropWhile P cs) \<subseteq> set cs" by (auto dest: set_dropWhileD)
    with True 2(1)[OF True] show ?thesis by auto
  next
    case False
    with 2(2)[OF False] show ?thesis by auto
  qed
qed simp

lemma dropWhile_collapseRuns:
  "r = [] \<or> \<not> P (hd r) \<Longrightarrow> dropWhile P (collapseRuns P r) = collapseRuns P r"
  by (cases r) auto

lemma dropWhile_head: "dropWhile P cs = [] \<or> \<not> P (hd (dropWhile P cs))"
  using hd_dropWhile[of P cs] by blast

lemma collapseRuns_idem:
  "P CHR '' '' \<Longrightarrow> collapseRuns P (collapseRuns P s) = collapseRuns P s"
proof (induction P s rule: collapseRuns.induct)
  case (1 P) show ?case by simp
next
  case (2 P c cs)
  show ?case
  proof (cases "P c")
    case True
    let ?r = "collapseRuns P (dropWhile P cs)"
    have d: "dropWhile P ?r = ?r"
      using dropWhile_collapseRuns[OF dropWhile_head] .
    have 1: "collapseRuns P (c # cs) = CHR '' '' # ?r" using True by simp
    have "collapseRuns P (CHR '' '' # ?r) = CHR '' '' # collapseRuns P (dropWhile P ?r)"
      using 2(3) by (simp only: collapseRuns.simps if_True)
    also have "\<dots> = CHR '' '' # ?r"
      using 2(1)[OF True 2(3)] by (simp only: d)
    finally show ?thesis by (simp only: 1)
  next
    case False
    have 1: "collapseRuns P (c # cs) = c # collapseRuns P cs" using False by simp
    have "collapseRuns P (c # collapseRuns P cs) = c # collapseRuns P (collapseRuns P cs)"
      using False by simp
    with 2(2)[OF False 2(3)] 1 show ?thesis by (simp only:)
  qed
qed

lemma collapseRuns_keeps_clear:
  assumes "\<not> Q CHR '' ''" and "\<forall>c \<in> set s. \<not> Q c"
  shows "\<forall>c \<in> set (collapseRuns P s). \<not> Q c"
  using collapseRuns_set[of P s] assms by blast

lemma collapseText_idem: "collapseText (collapseText d) = collapseText d"
proof -
  define Q where "Q = (\<lambda>c. c \<in> set [CHR 0x09, CHR 0x0A, CHR 0x0D])"
  define S where "S = (\<lambda>c. c = CHR '' '')"
  have nq: "\<not> Q CHR '' ''" by (simp add: Q_def)
  have sp: "S CHR '' ''" by (simp add: S_def)
  have 1: "\<forall>c \<in> set (collapseRuns Q d). \<not> Q c"
    using collapseRuns_clears[of Q d] nq by blast
  have "\<forall>c \<in> set (collapseRuns S (collapseRuns Q d)). \<not> Q c"
    using collapseRuns_keeps_clear[of Q "collapseRuns Q d" S] nq 1 by blast
  then have a: "collapseRuns Q (collapseRuns S (collapseRuns Q d)) = collapseRuns S (collapseRuns Q d)"
    by (rule collapseRuns_none)
  have b: "collapseRuns S (collapseRuns S (collapseRuns Q d)) = collapseRuns S (collapseRuns Q d)"
    using collapseRuns_idem[of S "collapseRuns Q d"] sp by blast
  have "collapseText x = collapseRuns S (collapseRuns Q x)" for x
    by (simp only: collapseText_def Q_def S_def)
  with a b show ?thesis by (simp only:)
qed

text \<open>The two whitespace passes, one after the other, as the orchestrator runs them.\<close>

definition normalizeWhitespace :: "node list \<Rightarrow> node list" where
  "normalizeWhitespace cs = cleanTextNodes (map collapseWhitespace cs)"

lemma collapseText_space: "collapseText '' '' = '' ''"
  by (simp add: collapseText_def)

lemma jsLength_space: "jsLength '' '' = 1"
  by (simp add: jsLength_def)

lemma cleanTextNodes_Text_twice:
  "cleanTextNodes (map collapseWhitespace (cleanTextNodes (map collapseWhitespace [Text d])))
     = cleanTextNodes (map collapseWhitespace [Text d])"
proof (cases "length (trim (collapseText d)) = 0 \<and> jsLength (collapseText d) > 1")
  case True
  then show ?thesis by (simp add: collapseText_space jsLength_space)
next
  case False
  then show ?thesis by (auto simp: collapseText_idem)
qed

lemma cleanTextNodes_Cons: "cleanTextNodes (c # cs) = cleanTextNodes [c] @ cleanTextNodes cs"
  by (cases c) simp_all

lemma cleanTextNodes_append: "cleanTextNodes (xs @ ys) = cleanTextNodes xs @ cleanTextNodes ys"
proof (induction xs)
  case (Cons c xs)
  then show ?case
    using cleanTextNodes_Cons[of c "xs @ ys"] cleanTextNodes_Cons[of c xs] by simp
qed simp

lemma normalizeWhitespace_Cons:
  "normalizeWhitespace (c # cs) = normalizeWhitespace [c] @ normalizeWhitespace cs"
  using cleanTextNodes_Cons[of "collapseWhitespace c" "map collapseWhitespace cs"]
  by (simp add: normalizeWhitespace_def)

lemma normalizeWhitespace_append:
  "normalizeWhitespace (xs @ ys) = normalizeWhitespace xs @ normalizeWhitespace ys"
  by (simp add: normalizeWhitespace_def cleanTextNodes_append)

lemma normalizeWhitespace_idem: "normalizeWhitespace (normalizeWhitespace cs) = normalizeWhitespace cs"
proof (induction cs rule: cleanTextNodes.induct)
  case 1
  show ?case by (simp add: normalizeWhitespace_def)
next
  case (2 d rest)
  have "normalizeWhitespace (normalizeWhitespace [Text d]) = normalizeWhitespace [Text d]"
    unfolding normalizeWhitespace_def by (rule cleanTextNodes_Text_twice)
  with 2 show ?case
    using normalizeWhitespace_Cons[of "Text d" rest]
    by (simp only: normalizeWhitespace_append)
next
  case (3 t a cs rest)
  have "normalizeWhitespace [Element t a cs] = [Element t a (normalizeWhitespace cs)]"
    by (simp add: normalizeWhitespace_def)
  with 3(1) have "normalizeWhitespace (normalizeWhitespace [Element t a cs]) = normalizeWhitespace [Element t a cs]"
    by (simp add: normalizeWhitespace_def)
  with 3(2) show ?case
    using normalizeWhitespace_Cons[of "Element t a cs" rest]
    by (simp only: normalizeWhitespace_append)
next
  case (4 d rest)
  have "normalizeWhitespace (normalizeWhitespace [Comment d]) = normalizeWhitespace [Comment d]"
    by (simp add: normalizeWhitespace_def)
  with 4 show ?case
    using normalizeWhitespace_Cons[of "Comment d" rest]
    by (simp only: normalizeWhitespace_append)
next
  case (5 n d rest)
  have "normalizeWhitespace (normalizeWhitespace [Directive n d]) = normalizeWhitespace [Directive n d]"
    by (simp add: normalizeWhitespace_def)
  with 5 show ?case
    using normalizeWhitespace_Cons[of "Directive n d" rest]
    by (simp only: normalizeWhitespace_append)
qed

lemma normalizeWhitespace_elems [simp]: "elemsIn (normalizeWhitespace cs) = elemsIn cs"
  by (simp add: normalizeWhitespace_def)

lemma wwwaxeTree_normalized:
  assumes "markdown opts = Some False"
  shows "normalizeWhitespace (wwwaxeTree opts doc) = wwwaxeTree opts doc"
proof -
  let ?d = "removeDocumentWrappers (processNodes opts (getUnwrapTags opts) doc)"
  from assms have "wwwaxeTree opts doc
      = normalizeWhitespace (if truthy (core opts) then stripChrome ?d else ?d)"
    by (simp add: wwwaxeTree_def Let_def notFalse_def normalizeWhitespace_def)
  then show ?thesis by (simp only: normalizeWhitespace_idem)
qed

lemma wwwaxeTree_core_noChrome:
  assumes "core opts = Some True" and "(t, a) \<in> elemsIn (wwwaxeTree opts doc)"
  shows "\<not> isChrome t a"
  using wwwaxeTree_core_elems[of opts doc] stripChrome_noChrome assms
  by (auto simp: truthy_def)

text \<open>
  C4, as far as it holds. The second run starts from the tree \<open>parsed\<close> that the parser
  reads from the text of the first run; serializer and parser are outside the program,
  and all that is asked of them is that \<open>parsed\<close> has no element that the first tree has
  not and no comment. With \<open>markdown\<close> false, if \<open>parsed\<close> has no \<open>link\<close> and no \<open>html\<close>
  element, if none of its elements fails an emptiness test of the pruner and if, with
  \<open>core\<close> set, the content search on it finds nothing or its only top-level node, then
  the second run returns \<open>parsed\<close> with nothing changed but the white space of its text
  nodes, normalized again; and when \<open>parsed\<close> is the tree of the first run, the second run
  returns that tree.
\<close>

theorem C4_second_run_fixed:
  assumes "\<forall>n \<in> set doc. linksChildless n"
    and "markdown opts = Some False"
    and "elemsIn parsed \<subseteq> elemsIn (wwwaxeTree opts doc)"
    and "commentsIn parsed = {}"
    and "\<forall>(t, a) \<in> elemsIn parsed. toLowerCase t \<noteq> ''link'' \<and> toLowerCase t \<noteq> ''html''"
    and "\<forall>n \<in> set parsed. contentful n"
    and "core opts = Some True \<longrightarrow> mainEl parsed = None \<longrightarrow>
           (\<forall>e. findCoreContent parsed = Some e \<longrightarrow> parsed = [e])"
  shows "wwwaxeTree opts parsed = normalizeWhitespace parsed
       \<and> elemsIn (wwwaxeTree opts parsed) = elemsIn parsed
       \<and> (parsed = wwwaxeTree opts doc \<longrightarrow> wwwaxeTree opts parsed = wwwaxeTree opts doc)"
proof -
  let ?uw = "getUnwrapTags opts"
  have san: "\<forall>(t, a) \<in> elemsIn parsed. sanitized opts ?uw t a"
  proof clarify
    fix t a assume ta: "(t, a) \<in> elemsIn parsed"
    with assms(5) have "toLowerCase t \<noteq> ''link''" by auto
    moreover from ta assms(3) have "(t, a) \<in> elemsIn (wwwaxeTree opts doc)" by blast
    ultimately show "sanitized opts ?uw t a"
      using wwwaxeTree_sanitized[OF assms(1)] by blast
  qed
  have p1: "processNodes opts ?uw parsed = parsed"
    using san assms(6,4) by (rule processNodes_fixed)
  have p2: "removeDocumentWrappers parsed = parsed"
    using assms(5) by (intro removeDocumentWrappers_no_html) auto
  have p3: "stripChrome parsed = parsed" if c: "core opts = Some True"
  proof -
    have "\<forall>(t, a) \<in> elemsIn parsed. \<not> isChrome t a"
      using wwwaxeTree_core_noChrome[OF c] assms(3) by blast
    then have r: "removeChromeElements parsed = parsed"
      by (rule removeChromeElements_fixed)
    show ?thesis
    proof (cases "mainEl parsed")
      case None
      with assms(7) c have "\<forall>e. findCoreContent parsed = Some e \<longrightarrow> parsed = [e]" by blast
      with None r show ?thesis
        by (auto simp: stripChrome_def Let_def split: option.splits)
    next
      case (Some m)
      with r show ?thesis by (simp add: stripChrome_def Let_def)
    qed
  qed
  have p3': "(if truthy (core opts) then stripChrome parsed else parsed) = parsed"
    using p3 by (simp add: truthy_def)
  from assms(2) have "wwwaxeTree opts parsed
      = normalizeWhitespace
          (if truthy (core opts)
           then stripChrome (removeDocumentWrappers (processNodes opts ?uw parsed))
           else removeDocumentWrappers (processNodes opts ?uw parsed))"
    by (simp add: wwwaxeTree_def Let_def notFalse_def normalizeWhitespace_def)
  then have run: "wwwaxeTree opts parsed = normalizeWhitespace parsed"
    by (simp only: p1 p2 p3')
  moreover from run have "elemsIn (wwwaxeTree opts parsed) = elemsIn parsed" by simp
  moreover have "wwwaxeTree opts parsed = wwwaxeTree opts doc" if "parsed = wwwaxeTree opts doc"
    using run that wwwaxeTree_normalized[OF assms(2), of doc] by simp
  ultimately show ?thesis by blast
qed

definition C4_example :: document where
  "C4_example =
     [Element ''div'' [(''class'', ''wrap''), (''onclick'', ''go()'')]
        [Comment ''x'',
         Element ''nav'' [] [Element ''a'' [(''href'', ''/'')] [Text ''Home'']],
         Element ''main'' [(''id'', ''m'')]
           [Element ''p'' [(''style'', ''color:red'')]
              [Text [CHR ''A'', CHR 0x0A, CHR 0x09, CHR '' '', CHR ''b''], Element ''b'' [] [Text ''bold'']],
            Text [CHR 0x0A, CHR '' '', CHR '' ''],
            Element ''link'' [(''rel'', ''stylesheet''), (''href'', ''/s.css'')] [],
            Element ''section'' [] [Element ''span'' [(''hidden'', [])] [Text ''gone'']]]]]"

text \<open>
  The tree of the first run on \<open>C4_example\<close> has two text nodes side by side, where the
  pruner unwrapped the \<open>b\<close> element; in \<open>C4_parsed\<close> they are one, as a parser reads them
  from the text.
\<close>

definition C4_first :: document where
  "C4_first = [Element ''main'' [(''id'', ''m'')] [Element ''p'' [] [Text ''A b'', Text ''bold''], Text '' '']]"

definition C4_parsed :: document where
  "C4_parsed = [Element ''main'' [(''id'', ''m'')] [Element ''p'' [] [Text ''A bbold''], Text '' '']]"

definition C4_options :: options where
  "C4_options = defaultOptions\<lparr>markdown := Some False, core := Some True\<rparr>"

theorem C4_second_run_fixed_witness:
  "list_all linksChildless C4_example
   \<and> markdown C4_options = Some False
   \<and> core C4_options = Some True
   \<and> wwwaxeTree C4_options C4_example = C4_first
   \<and> elemsIn C4_parsed = set [(''main'', [(''id'', ''m'')]), (''p'', [])]
   \<and> elemsIn C4_first = set [(''main'', [(''id'', ''m'')]), (''p'', [])]
   \<and> commentsIn C4_parsed = {}
   \<and> list_all (\<lambda>(t, a). toLowerCase t \<noteq> ''link'' \<and> toLowerCase t \<noteq> ''html'')
        [(''main'', [(''id'', ''m'')]), (''p'', [])]
   \<and> list_all contentful C4_parsed
   \<and> mainEl C4_parsed = Some (Element ''main'' [(''id'', ''m'')] [Element ''p'' [] [Text ''A bbold''], Text '' ''])
   \<and> normalizeWhitespace C4_parsed = C4_parsed
   \<and> wwwaxeTree C4_options C4_parsed = C4_parsed"
proof -
  have l: "list_all linksChildless C4_example"
    by code_simp
  then have h1: "\<forall>n \<in> set C4_example. linksChildless n"
    by (simp add: list_all_iff)
  have m: "markdown C4_options = Some False" and c: "core C4_options = Some True"
    by (simp_all add: C4_options_def defaultOptions_def)
  have v: "wwwaxeTree C4_options C4_example = C4_first"
    by code_simp
  have e: "elemsIn C4_parsed = set [(''main'', [(''id'', ''m'')]), (''p'', [])]"
    by code_simp
  have e1: "elemsIn C4_first = set [(''main'', [(''id'', ''m'')]), (''p'', [])]"
    by code_simp
  have k: "commentsIn C4_parsed = {}"
    by code_simp
  have t: "list_all (\<lambda>(t, a). toLowerCase t \<noteq> ''link'' \<and> toLowerCase t \<noteq> ''html'')
        [(''main'', [(''id'', ''m'')]), (''p'', [])]"
    by code_simp
  have f: "list_all contentful C4_parsed"
    by code_simp
  have mn: "mainEl C4_parsed = Some (Element ''main'' [(''id'', ''m'')] [Element ''p'' [] [Text ''A bbold''], Text '' ''])"
    by code_simp
  have n: "normalizeWhitespace C4_parsed = C4_parsed"
    by code_simp
  from e e1 v have h3: "elemsIn C4_parsed \<subseteq> elemsIn (wwwaxeTree C4_options C4_example)"
    by simp
  from t e have h5: "\<forall>(t, a) \<in> elemsIn C4_parsed. toLowerCase t \<noteq> ''link'' \<and> toLowerCase t \<noteq> ''html''"
    unfolding list_all_iff by blast
  from f have h6: "\<forall>n \<in> set C4_parsed. contentful n"
    by (simp add: list_all_iff)
  from mn have h7: "core C4_options = Some True \<longrightarrow> mainEl C4_parsed = None \<longrightarrow>
           (\<forall>e. findCoreContent C4_parsed = Some e \<longrightarrow> C4_parsed = [e])"
    by simp
  from C4_second_run_fixed[OF h1 m h3 k h5 h6 h7] n
  have "wwwaxeTree C4_options C4_parsed = C4_parsed" by simp
  with l m c v e e1 k t f mn n show ?thesis by blast
qed

text \<open>
  The claim as it is written fails on a canonical link outside the head: the first run
  keeps it without its \<open>rel\<close>, and the second run, which no longer sees a useful link,
  removes it.
\<close>

theorem C4_canonical_link_counterexample:
  "wwwaxeTree (defaultOptions\<lparr>markdown := Some False\<rparr>)
       [Element ''link'' [(''rel'', ''canonical''), (''href'', ''/x'')] [], Element ''p'' [] [Text ''Hi'']]
     = [Element ''link'' [(''href'', ''/x'')] [], Element ''p'' [] [Text ''Hi'']]
   \<and> wwwaxeTree (defaultOptions\<lparr>markdown := Some False\<rparr>)
       [Element ''link'' [(''href'', ''/x'')] [], Element ''p'' [] [Text ''Hi'']]
     = [Element ''p'' [] [Text ''Hi'']]"
  by code_simp

text \<open>
  Each of the other conditions is needed as well. A second run removes an element that
  the wrapper remover or the chrome stripper of the first run has emptied; it unwraps an
  \<open>html\<close> element that the first run left; and with \<open>core\<close> it narrows the tree again when
  the first run followed a skip link that is no longer there.
\<close>

lemma second_run_removes_emptied_section:
  "wwwaxeTree (defaultOptions\<lparr>markdown := Some False\<rparr>)
       [Element ''html'' [] [Element ''section'' [] [Element ''head'' [] [Element ''title'' [] [Text ''T'']]],
                             Element ''body'' [] [Element ''p'' [] [Text ''Hi'']]]]
     = [Element ''section'' [] [], Element ''p'' [] [Text ''Hi'']]
   \<and> wwwaxeTree (defaultOptions\<lparr>markdown := Some False\<rparr>)
       [Element ''section'' [] [], Element ''p'' [] [Text ''Hi'']]
     = [Element ''p'' [] [Text ''Hi'']]"
  by code_simp

lemma second_run_removes_section_emptied_of_chrome:
  "wwwaxeTree (defaultOptions\<lparr>markdown := Some False, core := Some True\<rparr>)
       [Element ''main'' [] [Text ''Hi''], Element ''section'' [] [Element ''nav'' [] [Text ''menu'']]]
     = [Element ''main'' [] [Text ''Hi''], Element ''section'' [] []]
   \<and> wwwaxeTree (defaultOptions\<lparr>markdown := Some False, core := Some True\<rparr>)
       [Element ''main'' [] [Text ''Hi''], Element ''section'' [] []]
     = [Element ''main'' [] [Text ''Hi'']]"
  by code_simp

lemma second_run_unwraps_second_html:
  "wwwaxeTree (defaultOptions\<lparr>markdown := Some False\<rparr>)
       [Element ''html'' [] [Element ''html'' [] [Element ''body'' [] [Element ''p'' [] [Text ''x'']]]]]
     = [Element ''html'' [] [Element ''p'' [] [Text ''x'']]]
   \<and> wwwaxeTree (defaultOptions\<lparr>markdown := Some False\<rparr>)
       [Element ''html'' [] [Element ''p'' [] [Text ''x'']]]
     = [Element ''p'' [] [Text ''x'']]"
  by code_simp

lemma second_run_narrows_core:
  "wwwaxeTree (defaultOptions\<lparr>markdown := Some False, core := Some True\<rparr>)
       [Element ''a'' [(''href'', ''#x'')] [Text ''Skip''],
        Element ''section'' [(''id'', ''x'')]
          [Element ''p'' [] [Text ''intro''], Element ''div'' [(''id'', ''content'')] [Text ''body'']]]
     = [Element ''section'' [(''id'', ''x'')]
          [Element ''p'' [] [Text ''intro''], Element ''div'' [(''id'', ''content'')] [Text ''body'']]]
   \<and> wwwaxeTree (defaultOptions\<lparr>markdown := Some False, core := Some True\<rparr>)
       [Element ''section'' [(''id'', ''x'')]
          [Element ''p'' [] [Text ''intro''], Element ''div'' [(''id'', ''content'')] [Text ''body'']]]
     = [Element ''div'' [(''id'', ''content'')] [Text ''body'']]"
  by code_simp

text \<open>
  What the parser reads back is its own matter: the first run leaves \<open>p\<close> around \<open>ul\<close>
  where it unwrapped a \<open>span\<close> between them; a parser that ends a \<open>p\<close> at \<open>ul\<close> reads an
  empty \<open>p\<close> followed by the list, and the second run removes that \<open>p\<close>.
\<close>

lemma second_run_after_parser_closed_p:
  "wwwaxeTree (defaultOptions\<lparr>markdown := Some False\<rparr>)
       [Element ''p'' [] [Element ''span'' [] [Element ''ul'' [] [Element ''li'' [] [Text ''x'']]]]]
     = [Element ''p'' [] [Element ''ul'' [] [Element ''li'' [] [Text ''x'']]]]
   \<and> wwwaxeTree (defaultOptions\<lparr>markdown := Some False\<rparr>)
       [Element ''p'' [] [], Element ''ul'' [] [Element ''li'' [] [Text ''x'']]]
     = [Element ''ul'' [] [Element ''li'' [] [Text ''x'']]]
   \<and> \<not> list_all contentful [Element ''p'' [] [], Element ''ul'' [] [Element ''li'' [] [Text ''x'']]]"
  by code_simp

section \<open>Paths and references\<close>

text \<open>
  The path search finds the node that \<open>findElementIn\<close> returns: \<open>nodeAt\<close> follows a path.
\<close>

fun nodeAt :: "node list \<Rightarrow> nat list \<Rightarrow> node option" where
  "nodeAt cs [] = None"
| "nodeAt cs [i] = (if i < length cs then Some (cs ! i) else None)"
| "nodeAt cs (i # j # p) =
     (if i < length cs then
        (case cs ! i of Element tagName a ks \<Rightarrow> nodeAt ks (j # p) | _ \<Rightarrow> None)
      else None)"

lemma nodeAt_Cons_Suc: "nodeAt (c # cs) (Suc i # p) = nodeAt cs (i # p)"
  by (cases p) simp_all

lemma findElementPath_node:
  "findElementPath n t = None \<longleftrightarrow> findElement n t = None"
  "findElementPath n t = Some p \<Longrightarrow>
     (p = [] \<and> findElement n t = Some n)
     \<or> (\<exists>tagName a cs. n = Element tagName a cs \<and> p \<noteq> [] \<and> findElement n t = nodeAt cs p)"
  "findElementPathIn cs i t = None \<longleftrightarrow> findElementIn cs t = None"
  "findElementPathIn cs i t = Some p \<Longrightarrow>
     \<exists>j q. p = (i + j) # q \<and> findElementIn cs t = nodeAt cs (j # q)"
proof (induction n t and cs i t arbitrary: p and p rule: findElementPath_findElementPathIn.induct)
  case (1 tagName a cs t)
  {
    case 1
    then show ?case using "1.IH"(1) by simp
  next
    case 2
    show ?case
    proof (cases "toLowerCase tagName = t")
      case True
      with 2 show ?thesis by simp
    next
      case False
      with 2 have "findElementPathIn cs 0 t = Some p" by simp
      from "1.IH"(2)[OF False this] False show ?thesis by auto
    qed
  }
next
  case (6 c cs i t)
  {
    case 1
    show ?case
    proof (cases "findElementPath c t")
      case None
      with "6.IH"(1) "6.IH"(3)[OF None] show ?thesis by simp
    next
      case (Some q)
      with "6.IH"(1) show ?thesis by (auto split: option.splits)
    qed
  next
    case 2
    show ?case
    proof (cases "findElementPath c t")
      case None
      with 2 have "findElementPathIn cs (Suc i) t = Some p" by simp
      from "6.IH"(4)[OF None this] obtain j q
        where "p = (Suc i + j) # q" "findElementIn cs t = nodeAt cs (j # q)" by blast
      moreover from None "6.IH"(1) have "findElement c t = None" by simp
      ultimately have "p = (i + Suc j) # q \<and> findElementIn (c # cs) t = nodeAt (c # cs) (Suc j # q)"
        by (simp add: nodeAt_Cons_Suc)
      then show ?thesis by blast
    next
      case (Some q)
      with 2 have p: "p = i # q" by simp
      from "6.IH"(2)[OF Some] have n: "findElement c t = nodeAt (c # cs) (0 # q)"
        by (cases q) auto
      from Some "6.IH"(1) obtain e where e: "findElement c t = Some e" by auto
      then have "findElementIn (c # cs) t = Some e" by simp
      with n e have "findElementIn (c # cs) t = nodeAt (c # cs) (0 # q)" by simp
      with p show ?thesis by (metis add.right_neutral)
    qed
  }
qed simp_all

text \<open>
  The wrapper remover on a usual document, on a \<open>head\<close> nested in the \<open>body\<close>, on a
  \<open>body\<close> nested in the \<open>head\<close> (the \<open>head\<close> goes with it, nothing is unwrapped but
  \<open>html\<close>), and on a \<open>head\<close> that precedes the \<open>body\<close> one level up.
\<close>

lemma removeDocumentWrappers_examples:
  "removeDocumentWrappers
     [Directive ''!doctype'' ''!DOCTYPE html'',
      Element ''html'' [] [Element ''head'' [] [Element ''title'' [] [Text ''T'']],
                           Element ''body'' [] [Element ''p'' [] [Text ''Hi'']]]]
   = [Directive ''!doctype'' ''!DOCTYPE html'', Element ''p'' [] [Text ''Hi'']]"
  "removeDocumentWrappers
     [Element ''html'' [] [Element ''body'' [] [Text ''a'', Element ''head'' [] [Text ''h''], Text ''b'']]]
   = [Text ''a'', Text ''b'']"
  "removeDocumentWrappers
     [Element ''html'' [] [Element ''head'' [] [Element ''body'' [] [Text ''x'']], Element ''body'' [] [Text ''y'']]]
   = [Element ''body'' [] [Text ''y'']]"
  "removeDocumentWrappers
     [Element ''html'' [] [Element ''head'' [] [], Element ''section'' [] [Text ''s'', Element ''body'' [] [Text ''y'']]]]
   = [Element ''section'' [] [Text ''s'', Text ''y'']]"
  by code_simp+

text \<open>
  The pruner does not visit the children of a \<open>link\<close> it keeps; this is why the theorems
  on the serialized tree ask for \<open>linksChildless\<close>.
\<close>

lemma kept_link_children_not_visited:
  "processNode defaultOptions (getUnwrapTags defaultOptions)
     (Element ''link'' [(''rel'', ''canonical'')] [Element ''script'' [(''onload'', ''f()'')] [Comment ''c'']])
   = [Element ''link'' [] [Element ''script'' [(''onload'', ''f()'')] [Comment ''c'']]]"
  by code_simp

end
